theory Spec2Isabelle
  imports Complex_Main
begin

section \<open>Text: characters and the string methods the scraper calls\<close>

text \<open>
  Token text is a list of characters, each standing for one code point below 256;
  Python's \<open>str\<close> also holds code points from 256 on, which are outside this model.
  Below 256 the classes of the three patterns (\<open>[A-Z]\<close>, \<open>[a-zA-Z]\<close>, \<open>\d\<close>, \<open>\s\<close>) and
  the methods \<open>str.lower\<close>, \<open>str.isupper\<close>, \<open>str.isdigit\<close> and \<open>str.isalpha\<close> are as
  Python has them. Three letters (0xB5, 0xDF, 0xFF) have no upper-case form below 256:
  \<open>upper_char\<close> leaves them as they are, so \<open>upper\<close> and \<open>capitalize\<close> are Python's on
  text without these three. Coordinates are exact rationals: the rounding of Python's
  floats is not modelled.
\<close>

definition ascii_upper :: string where
  "ascii_upper = ''ABCDEFGHIJKLMNOPQRSTUVWXYZ''"

definition ascii_lower :: string where
  "ascii_lower = ''abcdefghijklmnopqrstuvwxyz''"

definition ascii_digits :: string where
  "ascii_digits = ''0123456789''"

text \<open>The upper-case letters from 0xC0 to 0xDE (0xD7 is the multiplication sign) and
  their lower-case forms, 32 further on.\<close>

definition latin1_upper :: string where
  "latin1_upper =
     [CHR 0xC0, CHR 0xC1, CHR 0xC2, CHR 0xC3, CHR 0xC4, CHR 0xC5, CHR 0xC6, CHR 0xC7,
      CHR 0xC8, CHR 0xC9, CHR 0xCA, CHR 0xCB, CHR 0xCC, CHR 0xCD, CHR 0xCE, CHR 0xCF,
      CHR 0xD0, CHR 0xD1, CHR 0xD2, CHR 0xD3, CHR 0xD4, CHR 0xD5, CHR 0xD6, CHR 0xD8,
      CHR 0xD9, CHR 0xDA, CHR 0xDB, CHR 0xDC, CHR 0xDD, CHR 0xDE]"

definition latin1_lower :: string where
  "latin1_lower =
     [CHR 0xE0, CHR 0xE1, CHR 0xE2, CHR 0xE3, CHR 0xE4, CHR 0xE5, CHR 0xE6, CHR 0xE7,
      CHR 0xE8, CHR 0xE9, CHR 0xEA, CHR 0xEB, CHR 0xEC, CHR 0xED, CHR 0xEE, CHR 0xEF,
      CHR 0xF0, CHR 0xF1, CHR 0xF2, CHR 0xF3, CHR 0xF4, CHR 0xF5, CHR 0xF6, CHR 0xF8,
      CHR 0xF9, CHR 0xFA, CHR 0xFB, CHR 0xFC, CHR 0xFD, CHR 0xFE]"

definition upper_letters :: string where
  "upper_letters = ascii_upper @ latin1_upper"

definition lower_letters :: string where
  "lower_letters = ascii_lower @ latin1_lower"

text \<open>The classes \<open>[A-Z]\<close>, \<open>[a-z]\<close>, \<open>[a-zA-Z]\<close> and \<open>\d\<close> of the patterns.\<close>

definition is_upper :: "char \<Rightarrow> bool" where
  "is_upper c = (c \<in> set ascii_upper)"

definition is_lower :: "char \<Rightarrow> bool" where
  "is_lower c = (c \<in> set ascii_lower)"

definition is_alpha :: "char \<Rightarrow> bool" where
  "is_alpha c = (is_upper c \<or> is_lower c)"

definition is_digit :: "char \<Rightarrow> bool" where
  "is_digit c = (c \<in> set ascii_digits)"

text \<open>\<open>\s\<close> of a \<open>str\<close> pattern: tab, line feed, vertical tab, form feed, carriage return,
  the four separators 0x1C..0x1F, the space, next line (0x85) and the no-break space
  (0xA0).\<close>

definition is_space :: "char \<Rightarrow> bool" where
  "is_space c = (c \<in> set [CHR 0x09, CHR 0x0A, CHR 0x0B, CHR 0x0C, CHR 0x0D,
                            CHR 0x1C, CHR 0x1D, CHR 0x1E, CHR 0x1F, CHR 0x20,
                            CHR 0x85, CHR 0xA0])"

text \<open>One character under \<open>str.isupper\<close>, \<open>str.isdigit\<close> (the digits and the superscripts
  two, three and one) and \<open>str.isalpha\<close> (the letters, with the two ordinal indicators,
  the micro sign, the sharp s and the y with diaeresis).\<close>

definition char_isupper :: "char \<Rightarrow> bool" where
  "char_isupper c = (c \<in> set upper_letters)"

definition char_isdigit :: "char \<Rightarrow> bool" where
  "char_isdigit c = (is_digit c \<or> c \<in> set [CHR 0xB2, CHR 0xB3, CHR 0xB9])"

definition char_isalpha :: "char \<Rightarrow> bool" where
  "char_isalpha c =
     (c \<in> set upper_letters \<or> c \<in> set lower_letters
      \<or> c \<in> set [CHR 0xAA, CHR 0xB5, CHR 0xBA, CHR 0xDF, CHR 0xFF])"

definition lower_char :: "char \<Rightarrow> char" where
  "lower_char c =
     (case map_of (zip upper_letters lower_letters) c of
        Some d \<Rightarrow> d
      | None \<Rightarrow> c)"

definition upper_char :: "char \<Rightarrow> char" where
  "upper_char c =
     (case map_of (zip lower_letters upper_letters) c of
        Some d \<Rightarrow> d
      | None \<Rightarrow> c)"

text \<open>\<open>s.lower()\<close>, \<open>s.upper()\<close>, \<open>s.capitalize()\<close>, \<open>s.isdigit()\<close>, \<open>s.isalpha()\<close>.\<close>

definition lower :: "string \<Rightarrow> string" where
  "lower s = map lower_char s"

definition upper :: "string \<Rightarrow> string" where
  "upper s = map upper_char s"

definition capitalize :: "string \<Rightarrow> string" where
  "capitalize s = (case s of [] \<Rightarrow> [] | c # cs \<Rightarrow> upper_char c # map lower_char cs)"

definition isdigit :: "string \<Rightarrow> bool" where
  "isdigit s = (s \<noteq> [] \<and> list_all char_isdigit s)"

definition isalpha :: "string \<Rightarrow> bool" where
  "isalpha s = (s \<noteq> [] \<and> list_all char_isalpha s)"

text \<open>\<open>sub in s\<close> on strings: \<open>sub\<close> occurs in \<open>s\<close> as a contiguous run.\<close>

fun starts_with :: "string \<Rightarrow> string \<Rightarrow> bool" where
  "starts_with [] s = True"
| "starts_with (p # ps) [] = False"
| "starts_with (p # ps) (c # cs) = (p = c \<and> starts_with ps cs)"

fun contains_str :: "string \<Rightarrow> string \<Rightarrow> bool" where
  "contains_str sub [] = (sub = [])"
| "contains_str sub (c # cs) = (starts_with sub (c # cs) \<or> contains_str sub cs)"

text \<open>\<open>sep.join(parts)\<close> with a one-character separator.\<close>

fun join_with :: "char \<Rightarrow> string list \<Rightarrow> string" where
  "join_with sep [] = []"
| "join_with sep [p] = p"
| "join_with sep (p # q # ps) = p @ sep # join_with sep (q # ps)"

text \<open>\<open>s.split(sep)\<close> and \<open>re.split\<close> on a one-character class: the pieces between the
  separators, empty pieces kept, never an empty list.\<close>

fun split_where :: "(char \<Rightarrow> bool) \<Rightarrow> string \<Rightarrow> string list" where
  "split_where sep [] = [[]]"
| "split_where sep (c # cs) =
     (if sep c then [] # split_where sep cs
      else (case split_where sep cs of
              [] \<Rightarrow> [[c]]
            | p # ps \<Rightarrow> (c # p) # ps))"

section \<open>The regular expressions\<close>

text \<open>
  Each of the three patterns is a sequence of greedy quantified character classes, the
  name pattern closed by \<open>$\<close>. \<open>Rep cls lo hi\<close> is \<open>cls{lo,hi}\<close> (\<open>hi = None\<close>: no upper
  bound), so \<open>cls\<close> is \<open>Rep cls 1 (Some 1)\<close>, \<open>cls?\<close> is \<open>Rep cls 0 (Some 1)\<close> and
  \<open>cls+\<close> is \<open>Rep cls 1 None\<close>. The matcher is the backtracking one of \<open>re\<close>: a
  quantifier takes as many characters as it can and gives them back one at a time
  while the rest of the pattern fails. \<open>$\<close> holds at the end of the text and before a
  line feed that ends it.
\<close>

datatype re_item = Rep "char \<Rightarrow> bool" nat "nat option" | EndAnchor

primrec try_down :: "(nat \<Rightarrow> 'a option) \<Rightarrow> nat \<Rightarrow> nat \<Rightarrow> 'a option" where
  "try_down f lo 0 = (if 0 < lo then None else f 0)"
| "try_down f lo (Suc n) =
     (if Suc n < lo then None
      else (case f (Suc n) of Some r \<Rightarrow> Some r | None \<Rightarrow> try_down f lo n))"

text \<open>\<open>match_items p s\<close>: the number of characters of \<open>s\<close> that the pattern matches at
  the start of \<open>s\<close>, or \<open>None\<close>.\<close>

primrec match_items :: "re_item list \<Rightarrow> string \<Rightarrow> nat option" where
  "match_items [] s = Some 0"
| "match_items (it # rest) s =
     (case it of
        EndAnchor \<Rightarrow> (if s = [] \<or> s = [CHR 0x0A] then match_items rest s else None)
      | Rep cls lo hi \<Rightarrow>
          (let k = length (takeWhile cls s);
               m = (case hi of None \<Rightarrow> k | Some h \<Rightarrow> min h k)
           in try_down (\<lambda>n. map_option (\<lambda>r. n + r) (match_items rest (drop n s))) lo m))"

text \<open>\<open>pattern.findall(s)\<close> for a pattern without groups: the matched texts, leftmost
  first, not overlapping. An empty match is recorded and the scan moves on by one.\<close>

function findall :: "re_item list \<Rightarrow> string \<Rightarrow> string list" where
  "findall p [] = (case match_items p [] of Some n \<Rightarrow> [[]] | None \<Rightarrow> [])"
| "findall p (c # cs) =
     (case match_items p (c # cs) of
        None \<Rightarrow> findall p cs
      | Some n \<Rightarrow>
          (if n = 0 then [] # findall p cs
           else take n (c # cs) # findall p (drop n (c # cs))))"
  by pat_completeness auto
termination
  by (relation "measure (\<lambda>(p, s). length s)") auto

declare findall.simps [simp del]

text \<open>\<open>EMAIL_PATTERN = [a-zA-Z0-9._%+-]+@[a-zA-Z0-9.-]+\.[a-zA-Z]{2,}\<close>\<close>

definition EMAIL_PATTERN :: "re_item list" where
  "EMAIL_PATTERN =
     [Rep (\<lambda>c. is_alpha c \<or> is_digit c \<or> c \<in> set ''._%+-'') 1 None,
      Rep (\<lambda>c. c = CHR ''@'') 1 (Some 1),
      Rep (\<lambda>c. is_alpha c \<or> is_digit c \<or> c \<in> set ''.-'') 1 None,
      Rep (\<lambda>c. c = CHR ''.'') 1 (Some 1),
      Rep is_alpha 2 None]"

text \<open>\<open>PHONE_PATTERN = \(?\d{3}\)?[-.\s]?\d{3}[-.\s]?\d{4}\<close>\<close>

definition phone_sep :: "char \<Rightarrow> bool" where
  "phone_sep c = (c \<in> set ''-.'' \<or> is_space c)"

definition PHONE_PATTERN :: "re_item list" where
  "PHONE_PATTERN =
     [Rep (\<lambda>c. c = CHR ''('') 0 (Some 1),
      Rep is_digit 3 (Some 3),
      Rep (\<lambda>c. c = CHR '')'') 0 (Some 1),
      Rep phone_sep 0 (Some 1),
      Rep is_digit 3 (Some 3),
      Rep phone_sep 0 (Some 1),
      Rep is_digit 4 (Some 4)]"

text \<open>\<open>NAME_PATTERN = ^[A-Z][a-zA-Z'\-\.\s]{1,48}[a-zA-Z]$\<close>. It is only used through
  \<open>NAME_PATTERN.match\<close>, which matches at the start of the text, where \<open>^\<close> holds.\<close>

definition name_middle :: "char \<Rightarrow> bool" where
  "name_middle c = (is_alpha c \<or> c = CHR 0x27 \<or> c \<in> set ''-.'' \<or> is_space c)"

definition NAME_PATTERN :: "re_item list" where
  "NAME_PATTERN =
     [Rep is_upper 1 (Some 1),
      Rep name_middle 1 (Some 48),
      Rep is_alpha 1 (Some 1),
      EndAnchor]"

section \<open>The name validator (\<open>pdf_extract.py\<close>)\<close>

definition BLACKLIST :: "string list" where
  "BLACKLIST =
    [''contact'', ''email'', ''phone'', ''website'', ''address'', ''location'',
     ''sign in'', ''log in'', ''sign up'', ''log out'', ''register'', ''login'',
     ''get help'', ''contact us'', ''about us'', ''view profile'', ''view all'',
     ''learn more'', ''read more'', ''see more'', ''show more'', ''load more'',
     ''find an agent'', ''find a'', ''search'', ''filter'', ''back to'',
     ''click here'', ''more info'', ''details'',
     ''menu'', ''home'', ''listings'', ''properties'', ''agents'',
     ''about'', ''services'', ''resources'', ''blog'', ''news'',
     ''compass'', ''compass one'', ''compass luxury'', ''compass academy'', ''compass plus'',
     ''compass cares'', ''private exclusives'', ''coming soon'',
     ''new development'', ''recently sold'', ''sales leadership'',
     ''neighborhood guides'', ''mortgage calculator'', ''external suppliers'',
     ''agent'', ''broker'', ''realtor'', ''licensed'', ''certified'',
     ''team'', ''group'', ''partners'', ''associates'',
     ''name'', ''first name'', ''last name'', ''full name'',
     ''your name'', ''enter name'', ''user name'', ''username'',
     ''manhattan'', ''brooklyn'', ''queens'', ''bronx'', ''staten island'',
     ''new york'', ''ny'', ''nyc'', ''city'', ''state'', ''zip'']"

definition ui_words :: "string list" where
  "ui_words = [''find'', ''agent'', ''last name'', ''first name'', ''register'', ''login'',
               ''view'', ''profile'']"

definition is_valid_name :: "string \<Rightarrow> bool" where
  "is_valid_name text =
     (case text of
        [] \<Rightarrow> False
      | c0 # _ \<Rightarrow>
          if length text < 2 \<or> length text > 50 then False
          else if lower text \<in> set BLACKLIST then False
          else if list_ex (\<lambda>word. contains_str word (lower text)) ui_words then False
          else if \<not> char_isupper c0 then False
          else if match_items NAME_PATTERN text = None then False
          else True)"

section \<open>Data model (\<open>models.py\<close>)\<close>

text \<open>\<open>PdfWord\<close>: a word with its bounding box; \<open>word_text\<close> is the field \<open>text\<close>.\<close>

record PdfWord =
  word_text :: string
  x0 :: rat
  y0 :: rat
  x1 :: rat
  y1 :: rat
  page_num :: int

definition center_x :: "PdfWord \<Rightarrow> rat" where
  "center_x w = (x0 w + x1 w) / 2"

definition center_y :: "PdfWord \<Rightarrow> rat" where
  "center_y w = (y0 w + y1 w) / 2"

text \<open>\<open>PdfContact\<close>, its fields prefixed with \<open>pc_\<close>; \<open>email_coords\<close> is the dictionary
  with the keys \<open>x\<close>, \<open>y\<close> and \<open>page\<close>, in that order.\<close>

record PdfContact =
  pc_email :: string
  pc_name :: "string option"
  pc_phone :: "string option"
  pc_email_coords :: "(string \<times> rat) list"
  pc_page_num :: int

record Contact =
  name :: "string option"
  email :: string
  phone :: "string option"
  profileUrl :: "string option"
  source :: string
  confidence :: string
  domain :: "string option"
  domainType :: "string option"

section \<open>Extraction (\<open>pdf_extract.py\<close>)\<close>

definition find_emails_in_words :: "PdfWord list \<Rightarrow> (string \<times> PdfWord) list" where
  "find_emails_in_words words =
     concat (map (\<lambda>word. map (\<lambda>email. (lower email, word))
                               (findall EMAIL_PATTERN (word_text word))) words)"

text \<open>The tests of the first loop of \<open>find_name_above_email\<close>: same page, centre inside
  the search bounds, first character upper-case.\<close>

definition in_bounds :: "PdfWord \<Rightarrow> rat \<Rightarrow> rat \<Rightarrow> rat \<Rightarrow> rat \<Rightarrow> PdfWord \<Rightarrow> bool" where
  "in_bounds email_word y_min y_max x_min x_max word =
     (page_num word = page_num email_word
      \<and> (y_min \<le> center_y word \<and> center_y word \<le> y_max)
      \<and> (x_min \<le> center_x word \<and> center_x word \<le> x_max))"

definition starts_upper :: "string \<Rightarrow> bool" where
  "starts_upper s = (case s of [] \<Rightarrow> False | c # _ \<Rightarrow> char_isupper c)"

definition name_candidates_of ::
  "PdfWord \<Rightarrow> PdfWord list \<Rightarrow> rat \<Rightarrow> rat \<Rightarrow> (PdfWord \<times> rat) list" where
  "name_candidates_of email_word all_words search_distance x_tolerance =
     (let email_x = center_x email_word;
          email_y = y0 email_word;
          y_min = email_y - search_distance;
          y_max = email_y;
          x_min = email_x - x_tolerance;
          x_max = email_x + x_tolerance
      in map (\<lambda>word. (word, \<bar>center_y word - email_y\<bar>))
           (filter (\<lambda>word. in_bounds email_word y_min y_max x_min x_max word
                            \<and> starts_upper (word_text word)) all_words))"

text \<open>The text and the mean distance of a group of candidates.\<close>

definition combined_text :: "(PdfWord \<times> rat) list \<Rightarrow> string" where
  "combined_text current_group = join_with (CHR '' '') (map (\<lambda>(w, d). word_text w) current_group)"

definition avg_distance :: "(PdfWord \<times> rat) list \<Rightarrow> rat" where
  "avg_distance current_group =
     sum_list (map (\<lambda>(w, d). d) current_group) / of_nat (length current_group)"

text \<open>The block \<open>if current_group: ...\<close>, which closes a group: it occurs in the loop and
  once more after it.\<close>

definition save_group ::
  "(PdfWord \<times> rat) list \<Rightarrow> (string \<times> rat) list \<Rightarrow> (string \<times> rat) list" where
  "save_group current_group name_candidates =
     (if current_group \<noteq> [] \<and> is_valid_name (combined_text current_group)
      then name_candidates @ [(combined_text current_group, avg_distance current_group)]
      else name_candidates)"

definition same_line :: "rat option \<Rightarrow> rat option \<Rightarrow> PdfWord \<Rightarrow> bool" where
  "same_line last_y last_x word =
     (case last_y of
        None \<Rightarrow> False
      | Some ly \<Rightarrow> \<bar>y0 word - ly\<bar> < 5
          \<and> (case last_x of None \<Rightarrow> False | Some lx \<Rightarrow> \<bar>x0 word - lx\<bar> < 150))"

text \<open>One pass of the grouping loop over the state
  \<open>(name_candidates, current_group, last_y, last_x)\<close>.\<close>

fun group_step ::
  "(string \<times> rat) list \<times> (PdfWord \<times> rat) list \<times> rat option \<times> rat option
   \<Rightarrow> PdfWord \<times> rat
   \<Rightarrow> (string \<times> rat) list \<times> (PdfWord \<times> rat) list \<times> rat option \<times> rat option" where
  "group_step (name_candidates, current_group, last_y, last_x) (word, distance) =
     (if same_line last_y last_x word
      then (name_candidates, current_group @ [(word, distance)],
            Some (y0 word), Some (x1 word))
      else (save_group current_group name_candidates, [(word, distance)],
            Some (y0 word), Some (x1 word)))"

definition find_name_above_email ::
  "PdfWord \<Rightarrow> PdfWord list \<Rightarrow> rat \<Rightarrow> rat \<Rightarrow> string option" where
  "find_name_above_email email_word all_words search_distance x_tolerance =
     (let candidates = name_candidates_of email_word all_words search_distance x_tolerance
      in if candidates = [] then None
         else
           (case foldl group_step ([], [], None, None) (sort_key snd candidates) of
              (name_candidates, current_group, last_y, last_x) \<Rightarrow>
                (case sort_key snd (save_group current_group name_candidates) of
                   [] \<Rightarrow> None
                 | best # _ \<Rightarrow> Some (fst best))))"

text \<open>The normalisation at the end of \<open>find_phone_below_email\<close>: \<open>re.sub(r'\D', '', phone)\<close>
  keeps the digits of the raw match \<open>phone\<close>.\<close>

definition normalize_phone :: "string \<Rightarrow> string" where
  "normalize_phone raw =
     (let digits = filter is_digit raw
      in if length digits = 10
         then ''+1-'' @ take 3 digits @ ''-'' @ take 3 (drop 3 digits) @ ''-'' @ drop 6 digits
         else if length digits = 11 \<and> hd digits = CHR ''1''
         then ''+'' @ [hd digits] @ ''-'' @ take 3 (drop 1 digits) @ ''-''
              @ take 3 (drop 4 digits) @ ''-'' @ drop 7 digits
         else raw)"

definition phone_candidates_of ::
  "PdfWord \<Rightarrow> PdfWord list \<Rightarrow> rat \<Rightarrow> rat \<Rightarrow> (string \<times> rat) list" where
  "phone_candidates_of email_word all_words search_distance x_tolerance =
     (let email_x = center_x email_word;
          email_y = y1 email_word;
          y_min = email_y;
          y_max = email_y + search_distance;
          x_min = email_x - x_tolerance;
          x_max = email_x + x_tolerance
      in List.map_filter
           (\<lambda>word. case findall PHONE_PATTERN (word_text word) of
                      [] \<Rightarrow> None
                    | m # _ \<Rightarrow> Some (m, \<bar>center_y word - email_y\<bar>))
           (filter (in_bounds email_word y_min y_max x_min x_max) all_words))"

definition find_phone_below_email ::
  "PdfWord \<Rightarrow> PdfWord list \<Rightarrow> rat \<Rightarrow> rat \<Rightarrow> string option" where
  "find_phone_below_email email_word all_words search_distance x_tolerance =
     (case sort_key snd (phone_candidates_of email_word all_words search_distance x_tolerance) of
        [] \<Rightarrow> None
      | best # _ \<Rightarrow> Some (normalize_phone (fst best)))"

text \<open>The body of the loop over the emails, with the default search distances (60 above
  for the name, 40 below for the phone, 100 to either side).\<close>

definition make_contact :: "PdfWord list \<Rightarrow> string \<Rightarrow> PdfWord \<Rightarrow> PdfContact" where
  "make_contact all_words email_text email_word =
     \<lparr> pc_email = email_text,
       pc_name = find_name_above_email email_word all_words 60 100,
       pc_phone = find_phone_below_email email_word all_words 40 100,
       pc_email_coords = [(''x'', center_x email_word), (''y'', center_y email_word),
                          (''page'', of_int (page_num email_word))],
       pc_page_num = page_num email_word \<rparr>"

fun collect_contacts ::
  "PdfWord list \<Rightarrow> string set \<Rightarrow> (string \<times> PdfWord) list \<Rightarrow> PdfContact list" where
  "collect_contacts all_words seen_emails [] = []"
| "collect_contacts all_words seen_emails ((email_text, email_word) # emails) =
     (if email_text \<in> seen_emails then collect_contacts all_words seen_emails emails
      else make_contact all_words email_text email_word
           # collect_contacts all_words (insert email_text seen_emails) emails)"

text \<open>\<open>extract_contacts_from_pdf\<close>. Reading the file is outside this module:
  \<open>pdf_words path\<close> is \<open>None\<close> when no file is at \<open>path\<close> and otherwise what
  \<open>extract_words_from_pdf\<close> returns for it.\<close>

datatype error = FileNotFoundError string

definition contacts_of_words :: "PdfWord list \<Rightarrow> PdfContact list" where
  "contacts_of_words all_words =
     (if all_words = [] then []
      else let emails = find_emails_in_words all_words
           in if emails = [] then [] else collect_contacts all_words {} emails)"

definition extract_contacts_from_pdf ::
  "(string \<Rightarrow> PdfWord list option) \<Rightarrow> string \<Rightarrow> error + PdfContact list" where
  "extract_contacts_from_pdf pdf_words pdf_path =
     (case pdf_words pdf_path of
        None \<Rightarrow> Inl (FileNotFoundError pdf_path)
      | Some all_words \<Rightarrow> Inr (contacts_of_words all_words))"

section \<open>Pairing and classification (\<open>pairing.py\<close>)\<close>

definition GENERIC_PREFIXES :: "string list" where
  "GENERIC_PREFIXES =
     [''info'', ''contact'', ''admin'', ''support'', ''help'', ''sales'',
      ''hello'', ''team'', ''office'', ''mail'', ''noreply'', ''no-reply'']"

definition PERSONAL_DOMAINS :: "string list" where
  "PERSONAL_DOMAINS =
     [''gmail.com'', ''yahoo.com'', ''hotmail.com'', ''outlook.com'', ''aol.com'',
      ''icloud.com'', ''me.com'', ''mac.com'', ''protonmail.com'', ''mail.com'',
      ''yandex.com'', ''gmx.com'', ''zoho.com'', ''live.com'', ''msn.com'']"

text \<open>\<open>email.split('@')[1]\<close> exists when \<open>@\<close> occurs in \<open>email\<close> (lemma
  \<open>split_at_has_second\<close> below), and \<open>split('@')[0]\<close> always does.\<close>

definition extract_domain :: "string \<Rightarrow> string option" where
  "extract_domain e =
     (if CHR ''@'' \<in> set e then Some (lower (split_where (\<lambda>c. c = CHR ''@'') e ! 1))
      else None)"

definition classify_domain :: "string option \<Rightarrow> string" where
  "classify_domain d =
     (case d of
        None \<Rightarrow> ''personal''
      | Some dname \<Rightarrow>
          if dname = [] then ''personal''
          else if dname \<in> set PERSONAL_DOMAINS then ''personal''
          else ''business'')"

definition name_part :: "string \<Rightarrow> string option" where
  "name_part part =
     (if part = [] then None
      else if isdigit part then None
      else if length part = 1 \<and> isalpha part then Some (upper part @ ''.'')
      else Some (capitalize part))"

definition derive_name_from_email :: "string \<Rightarrow> string" where
  "derive_name_from_email e =
     (if CHR ''@'' \<notin> set e then ''Unknown''
      else let prefix = lower (hd (split_where (\<lambda>c. c = CHR ''@'') e))
           in if prefix \<in> set GENERIC_PREFIXES then ''Unknown''
              else let parts = split_where (\<lambda>c. c \<in> set ''._-'') prefix;
                       name_parts = List.map_filter name_part parts
                   in if name_parts = [] then ''Unknown''
                      else join_with (CHR '' '') name_parts)"

text \<open>Python's truth value of an optional string: neither \<open>None\<close> nor empty.\<close>

definition truthy :: "string option \<Rightarrow> bool" where
  "truthy v = (case v of None \<Rightarrow> False | Some s \<Rightarrow> s \<noteq> [])"

definition calculate_confidence :: "Contact \<Rightarrow> string" where
  "calculate_confidence contact =
     (let has_name = (truthy (name contact) \<and> name contact \<noteq> Some ''Unknown'');
          has_email = (email contact \<noteq> []);
          has_phone = truthy (phone contact)
      in if has_name \<and> has_email \<and> has_phone then ''high''
         else if (has_name \<and> has_email) \<or> (has_email \<and> has_phone) then ''medium''
         else ''low'')"

definition process_contact :: "PdfContact \<Rightarrow> Contact" where
  "process_contact pdf_contact =
     (let nm = (if truthy (pc_name pdf_contact) then the (pc_name pdf_contact)
                else derive_name_from_email (pc_email pdf_contact));
          dname = extract_domain (pc_email pdf_contact);
          domain_type = classify_domain dname;
          contact = \<lparr> name = (if nm \<noteq> ''Unknown'' then Some nm else None),
                      email = pc_email pdf_contact,
                      phone = pc_phone pdf_contact,
                      profileUrl = None,
                      source = ''pdf'',
                      confidence = ''medium'',
                      domain = dname,
                      domainType = Some domain_type \<rparr>
      in contact\<lparr> confidence := calculate_confidence contact \<rparr>)"

definition process_pdf_contacts :: "PdfContact list \<Rightarrow> string \<Rightarrow> Contact list" where
  "process_pdf_contacts pdf_contacts page_url = map process_contact pdf_contacts"

text \<open>The two calls of \<open>cli.py\<close> in a row: extraction, then pairing and classification.\<close>

definition pipeline :: "PdfWord list \<Rightarrow> string \<Rightarrow> Contact list" where
  "pipeline all_words page_url = process_pdf_contacts (contacts_of_words all_words) page_url"

section \<open>Notions used to state the properties\<close>

text \<open>The least number of characters a pattern can match.\<close>

fun min_len :: "re_item list \<Rightarrow> nat" where
  "min_len [] = 0"
| "min_len (Rep cls lo hi # rest) = lo + min_len rest"
| "min_len (EndAnchor # rest) = min_len rest"

text \<open>\<open>conforms p m\<close>: the text \<open>m\<close> is cut into one run per quantifier of \<open>p\<close>, each run
  of characters of the class and of a length the quantifier allows.\<close>

fun conforms :: "re_item list \<Rightarrow> string \<Rightarrow> bool" where
  "conforms [] m = (m = [])"
| "conforms (Rep cls lo hi # rest) m =
     (\<exists>a b. m = a @ b \<and> lo \<le> length a \<and> (case hi of None \<Rightarrow> True | Some h \<Rightarrow> length a \<le> h)
            \<and> list_all cls a \<and> conforms rest b)"
| "conforms (EndAnchor # rest) m = conforms rest m"

text \<open>The search window of the name search as the specification words it: same page,
  vertical centre in the band from \<open>emailTop - 60\<close> to \<open>emailTop\<close>, horizontal centre in
  the band from \<open>emailCenterX - 100\<close> to \<open>emailCenterX + 100\<close>.\<close>

definition in_name_window :: "PdfWord \<Rightarrow> PdfWord \<Rightarrow> bool" where
  "in_name_window email_word w =
     (page_num w = page_num email_word
      \<and> y0 email_word - 60 \<le> center_y w \<and> center_y w \<le> y0 email_word
      \<and> center_x email_word - 100 \<le> center_x w \<and> center_x w \<le> center_x email_word + 100)"

text \<open>Line grouping as the specification words it: the next candidate joins the group
  of the previous one when its top edge is within 5 of the previous top edge and its
  left edge within 150 of the previous right edge; otherwise it opens a new group.\<close>

definition adjacent :: "PdfWord \<Rightarrow> PdfWord \<Rightarrow> bool" where
  "adjacent prev nxt = (\<bar>y0 nxt - y0 prev\<bar> < 5 \<and> \<bar>x0 nxt - x1 prev\<bar> < 150)"

fun groups_from ::
  "(PdfWord \<times> rat) list \<Rightarrow> (PdfWord \<times> rat) list \<Rightarrow> (PdfWord \<times> rat) list list" where
  "groups_from g [] = [g]"
| "groups_from g (c # cs) =
     (if adjacent (fst (last g)) (fst c) then groups_from (g @ [c]) cs
      else g # groups_from [c] cs)"

definition line_groups :: "(PdfWord \<times> rat) list \<Rightarrow> (PdfWord \<times> rat) list list" where
  "line_groups cs = (case cs of [] \<Rightarrow> [] | c # cs' \<Rightarrow> groups_from [c] cs')"

text \<open>The span of a group as the specification words it: the texts of its tokens joined
  with a single space, scored by the mean of the members' distances.\<close>

definition span_text :: "(PdfWord \<times> rat) list \<Rightarrow> string" where
  "span_text g = join_with (CHR '' '') (map (\<lambda>p. word_text (fst p)) g)"

definition mean_distance :: "(PdfWord \<times> rat) list \<Rightarrow> rat" where
  "mean_distance g = sum_list (map snd g) / of_nat (length g)"

text \<open>The groups of an email's candidates, and those the validator accepts.\<close>

definition name_groups :: "PdfWord \<Rightarrow> PdfWord list \<Rightarrow> (PdfWord \<times> rat) list list" where
  "name_groups email_word all_words =
     line_groups (sort_key snd (name_candidates_of email_word all_words 60 100))"

definition accepted_groups :: "PdfWord \<Rightarrow> PdfWord list \<Rightarrow> (PdfWord \<times> rat) list list" where
  "accepted_groups email_word all_words =
     filter (\<lambda>g. is_valid_name (span_text g)) (name_groups email_word all_words)"

text \<open>The confidence tier as the specification words it, and the order of the tiers.\<close>

definition spec_tier :: "bool \<Rightarrow> bool \<Rightarrow> bool \<Rightarrow> string" where
  "spec_tier has_name has_email has_phone =
     (if has_name \<and> has_email \<and> has_phone then ''high''
      else if (has_name \<and> has_email) \<or> (has_email \<and> has_phone) then ''medium''
      else ''low'')"

definition tier_rank :: "string \<Rightarrow> nat" where
  "tier_rank t = (if t = ''high'' then 2 else if t = ''medium'' then 1 else 0)"

text \<open>The two ways in which deriving a name from the local part of an address fails:
  the local part is a generic mailbox alias, or none of its segments survives.\<close>

definition generic_alias :: "string \<Rightarrow> bool" where
  "generic_alias e = (lower (hd (split_where (\<lambda>c. c = CHR ''@'') e)) \<in> set GENERIC_PREFIXES)"

definition no_segment_survives :: "string \<Rightarrow> bool" where
  "no_segment_survives e =
     (List.map_filter name_part
        (split_where (\<lambda>c. c \<in> set ''._-'') (lower (hd (split_where (\<lambda>c. c = CHR ''@'') e)))) = [])"

text \<open>Which of the three fields a Contact has: a name that is neither empty nor the
  placeholder, a non-empty email, a non-empty phone.\<close>

definition name_present :: "Contact \<Rightarrow> bool" where
  "name_present c = (truthy (name c) \<and> name c \<noteq> Some ''Unknown'')"

definition email_present :: "Contact \<Rightarrow> bool" where
  "email_present c = (email c \<noteq> [])"

definition phone_present :: "Contact \<Rightarrow> bool" where
  "phone_present c = truthy (phone c)"

text \<open>The addresses that occur in the text of a token, lower-cased, in the order of
  their occurrence.\<close>

definition addresses_in :: "PdfWord \<Rightarrow> string list" where
  "addresses_in w = map lower (findall EMAIL_PATTERN (word_text w))"

section \<open>The matcher\<close>

lemma try_down_Some:
  "try_down f lo m = Some r \<Longrightarrow> \<exists>n. lo \<le> n \<and> n \<le> m \<and> f n = Some r"
proof (induction m)
  case 0
  then show ?case by (auto split: if_splits)
next
  case (Suc m)
  show ?case
  proof (cases "f (Suc m)")
    case None
    with Suc obtain n where "lo \<le> n" "n \<le> m" "f n = Some r"
      by (auto split: if_splits)
    then show ?thesis by (intro exI [of _ n]) simp
  next
    case (Some a)
    with Suc.prems have "\<not> Suc m < lo" "f (Suc m) = Some r"
      by (auto split: if_splits)
    then show ?thesis by (intro exI [of _ "Suc m"]) simp
  qed
qed

lemma match_items_Rep:
  assumes "match_items (Rep cls lo hi # rest) s = Some n"
  obtains j r where "lo \<le> j" "j \<le> length (takeWhile cls s)"
    "case hi of None \<Rightarrow> True | Some h \<Rightarrow> j \<le> h"
    "match_items rest (drop j s) = Some r" "n = j + r"
proof -
  define k where "k = length (takeWhile cls s)"
  define m where "m = (case hi of None \<Rightarrow> k | Some h \<Rightarrow> min h k)"
  from assms
  have "try_down (\<lambda>j. map_option (\<lambda>r. j + r) (match_items rest (drop j s))) lo m = Some n"
    unfolding k_def m_def by (simp add: Let_def)
  then obtain j r where j: "lo \<le> j" "j \<le> m"
    and r: "match_items rest (drop j s) = Some r" and n: "n = j + r"
    by (auto dest!: try_down_Some)
  from j have "j \<le> k" "case hi of None \<Rightarrow> True | Some h \<Rightarrow> j \<le> h"
    unfolding m_def by (auto split: option.splits)
  with j r n that show thesis unfolding k_def by blast
qed

lemma match_items_bounds:
  "match_items p s = Some n \<Longrightarrow> min_len p \<le> n \<and> n \<le> length s"
proof (induction p arbitrary: s n)
  case Nil
  then show ?case by simp
next
  case (Cons it rest)
  show ?case
  proof (cases it)
    case EndAnchor
    with Cons show ?thesis by (auto split: if_splits)
  next
    case (Rep cls lo hi)
    from Cons.prems have "match_items (Rep cls lo hi # rest) s = Some n"
      unfolding Rep .
    then obtain j r where j: "lo \<le> j" "j \<le> length (takeWhile cls s)"
      and r: "match_items rest (drop j s) = Some r" and n: "n = j + r"
      by (rule match_items_Rep)
    from Cons.IH [OF r] have b: "min_len rest \<le> r" "r \<le> length (drop j s)" by auto
    have "length (takeWhile cls s) \<le> length s" by (rule length_takeWhile_le)
    with j have "j \<le> length s" by linarith
    with b j n Rep show ?thesis by auto
  qed
qed

lemma take_within_takeWhile:
  "j \<le> length (takeWhile P s) \<Longrightarrow> list_all P (take j s)"
  by (induction s arbitrary: j) (auto simp: take_Cons' split: if_splits)

lemma match_items_conforms:
  "match_items p s = Some n \<Longrightarrow> conforms p (take n s)"
proof (induction p arbitrary: s n)
  case Nil
  then show ?case by simp
next
  case (Cons it rest)
  show ?case
  proof (cases it)
    case EndAnchor
    with Cons show ?thesis by (auto split: if_splits)
  next
    case (Rep cls lo hi)
    from Cons.prems have "match_items (Rep cls lo hi # rest) s = Some n"
      unfolding Rep .
    then obtain j r where j: "lo \<le> j" "j \<le> length (takeWhile cls s)"
      and h: "case hi of None \<Rightarrow> True | Some h \<Rightarrow> j \<le> h"
      and r: "match_items rest (drop j s) = Some r" and n: "n = j + r"
      by (rule match_items_Rep)
    have "length (takeWhile cls s) \<le> length s" by (rule length_takeWhile_le)
    with j have len: "length (take j s) = j" by simp
    have cut: "take n s = take j s @ take r (drop j s)"
      unfolding n by (rule take_add)
    have "conforms rest (take r (drop j s))" by (rule Cons.IH [OF r])
    moreover have "list_all cls (take j s)" using j(2) by (rule take_within_takeWhile)
    ultimately have "take n s = take j s @ take r (drop j s) \<and> lo \<le> length (take j s)
        \<and> (case hi of None \<Rightarrow> True | Some h \<Rightarrow> length (take j s) \<le> h)
        \<and> list_all cls (take j s) \<and> conforms rest (take r (drop j s))"
      using cut len j(1) h by (auto split: option.splits)
    then show ?thesis unfolding Rep conforms.simps by blast
  qed
qed

lemma findall_elem:
  "m \<in> set (findall p s) \<Longrightarrow> \<exists>s' n. match_items p s' = Some n \<and> m = take n s'"
proof (induction p s rule: findall.induct)
  case (1 p)
  show ?case
  proof (cases "match_items p []")
    case None
    with 1 show ?thesis by (simp add: findall.simps)
  next
    case (Some n)
    with 1 have "m = []" by (simp add: findall.simps)
    with Some have "match_items p [] = Some n \<and> m = take n []" by simp
    then show ?thesis by blast
  qed
next
  case (2 p c cs)
  show ?case
  proof (cases "match_items p (c # cs)")
    case None
    with 2 show ?thesis by (simp add: findall.simps)
  next
    case (Some n)
    show ?thesis
    proof (cases "n = 0")
      case True
      show ?thesis
      proof (cases "m = []")
        case True
        with Some \<open>n = 0\<close> have "match_items p (c # cs) = Some n \<and> m = take n (c # cs)"
          by simp
        then show ?thesis by blast
      next
        case False
        with "2.prems" Some \<open>n = 0\<close> have "m \<in> set (findall p cs)"
          by (simp add: findall.simps)
        with "2.IH"(2) [OF Some \<open>n = 0\<close>] show ?thesis .
      qed
    next
      case False
      with 2 Some have "m = take n (c # cs) \<or> m \<in> set (findall p (drop n (c # cs)))"
        by (simp add: findall.simps)
      then show ?thesis
      proof
        assume "m = take n (c # cs)"
        with Some show ?thesis by blast
      next
        assume "m \<in> set (findall p (drop n (c # cs)))"
        with "2.IH"(3) [OF Some False] show ?thesis .
      qed
    qed
  qed
qed

lemma findall_min_len: "m \<in> set (findall p s) \<Longrightarrow> min_len p \<le> length m"
proof -
  assume "m \<in> set (findall p s)"
  from findall_elem [OF this] obtain s' n
    where "match_items p s' = Some n" "m = take n s'" by blast
  with match_items_bounds [of p s' n] show ?thesis by simp
qed

section \<open>The name validator\<close>

lemma name_pattern_min: "match_items NAME_PATTERN s = Some n \<Longrightarrow> 3 \<le> length s"
  using match_items_bounds [of NAME_PATTERN s n] by (simp add: NAME_PATTERN_def)

lemma blacklist_lower_case: "b \<in> set BLACKLIST \<Longrightarrow> lower b = b"
proof -
  have "list_all (\<lambda>b. lower b = b) BLACKLIST" by code_simp
  then show "b \<in> set BLACKLIST \<Longrightarrow> lower b = b" by (simp add: list_all_iff)
qed

text \<open>
  C6. The validator rejects every string that equals a blacklist entry up to case, and
  every string shorter than 2 or longer than 50 characters.
\<close>

theorem is_valid_name_blacklist_and_length:
  "(b \<in> set BLACKLIST \<and> lower s = lower b \<longrightarrow> \<not> is_valid_name s) \<and>
   (length s < 2 \<or> length s > 50 \<longrightarrow> \<not> is_valid_name s)"
proof (intro conjI impI)
  assume "b \<in> set BLACKLIST \<and> lower s = lower b"
  then have "lower s \<in> set BLACKLIST"
    by (simp add: blacklist_lower_case)
  then show "\<not> is_valid_name s"
    by (simp add: is_valid_name_def split: list.splits)
next
  assume "length s < 2 \<or> length s > 50"
  then show "\<not> is_valid_name s"
    by (auto simp: is_valid_name_def split: list.splits)
qed

theorem is_valid_name_blacklist_and_length_witness:
  "(''sign in'' \<in> set BLACKLIST \<and> lower ''Sign In'' = lower ''sign in'')
   \<and> \<not> is_valid_name ''Sign In''
   \<and> length ''A'' < 2 \<and> \<not> is_valid_name ''A''"
proof -
  have h: "''sign in'' \<in> set BLACKLIST \<and> lower ''Sign In'' = lower ''sign in''"
    by code_simp
  have l: "length ''A'' < 2" by simp
  from is_valid_name_blacklist_and_length [of "''sign in''" "''Sign In''"] h
  have "\<not> is_valid_name ''Sign In''" by blast
  moreover from is_valid_name_blacklist_and_length [of "''sign in''" "''A''"] l
  have "\<not> is_valid_name ''A''" by blast
  ultimately show ?thesis using h l by blast
qed

text \<open>
  C10. The validator rejects every string of exactly 2 characters: the name pattern
  needs an upper-case letter, at least one middle character and a closing letter.
\<close>

theorem is_valid_name_rejects_length_2: "length s = 2 \<Longrightarrow> \<not> is_valid_name s"
proof
  assume l: "length s = 2" and v: "is_valid_name s"
  from v have "match_items NAME_PATTERN s \<noteq> None"
    by (auto simp: is_valid_name_def split: list.splits if_splits)
  then obtain n where "match_items NAME_PATTERN s = Some n" by auto
  from name_pattern_min [OF this] l show False by simp
qed

theorem is_valid_name_rejects_length_2_witness:
  "length ''Al'' = 2 \<and> \<not> is_valid_name ''Al''"
  using is_valid_name_rejects_length_2 [of "''Al''"] by simp

section \<open>Phone normalisation\<close>

lemma normalize_phone_rule:
  "normalize_phone raw =
     (let d = filter is_digit raw
      in if length d = 10 then ''+1-'' @ take 3 d @ ''-'' @ take 3 (drop 3 d) @ ''-'' @ drop 6 d
         else if length d = 11 \<and> hd d = CHR ''1''
         then ''+1-'' @ take 3 (drop 1 d) @ ''-'' @ take 3 (drop 4 d) @ ''-'' @ drop 7 d
         else raw)"
  by (simp add: normalize_phone_def Let_def)

text \<open>
  C4. The normalisation block does map \<open>212-555-0100\<close> and, were it given it,
  \<open>12125550100\<close> to \<open>+1-212-555-0100\<close>. The phone search never gives it an 11-digit
  match: on the token \<open>12125550100\<close> the pattern captures the first ten digits,
  \<open>1212555010\<close>, and the search returns \<open>+1-121-255-5010\<close>.
\<close>

theorem eleven_digit_token_truncated:
  "normalize_phone ''212-555-0100'' = ''+1-212-555-0100'' \<and>
   normalize_phone ''12125550100'' = ''+1-212-555-0100'' \<and>
   findall PHONE_PATTERN ''12125550100'' = [''1212555010''] \<and>
   find_phone_below_email
     \<lparr>word_text = ''jane.doe@example.com'', x0 = 45, y0 = 60, x1 = 145, y1 = 72, page_num = 0\<rparr>
     [\<lparr>word_text = ''12125550100'', x0 = 68, y0 = 75, x1 = 128, y1 = 88, page_num = 0\<rparr>]
     40 100 = Some ''+1-121-255-5010''"
  by code_simp

lemma digit_not_sep: "is_digit c \<Longrightarrow> \<not> phone_sep c"
  by (auto simp: is_digit_def phone_sep_def is_space_def ascii_digits_def)

lemma digit_not_paren: "\<not> is_digit (CHR ''('')" "\<not> is_digit (CHR '')'')"
  by (simp_all add: is_digit_def ascii_digits_def)

lemma filter_none: "list_all P xs \<Longrightarrow> (\<And>c. P c \<Longrightarrow> \<not> Q c) \<Longrightarrow> filter Q xs = []"
  by (induction xs) auto

lemma filter_all: "list_all P xs \<Longrightarrow> filter P xs = xs"
  by (induction xs) auto

lemma phone_conforms_digits:
  assumes "conforms PHONE_PATTERN m"
  shows "\<exists>a b c. filter is_digit m = a @ b @ c \<and> length a = 3 \<and> length b = 3 \<and> length c = 4"
proof -
  from assms obtain p1 d1 p2 s1 d2 s2 d3 where m: "m = p1 @ d1 @ p2 @ s1 @ d2 @ s2 @ d3"
    and p1: "list_all (\<lambda>c. c = CHR ''('') p1" and p2: "list_all (\<lambda>c. c = CHR '')'') p2"
    and s: "list_all phone_sep s1" "list_all phone_sep s2"
    and d: "list_all is_digit d1" "list_all is_digit d2" "list_all is_digit d3"
    and l: "length d1 = 3" "length d2 = 3" "length d3 = 4"
    by (auto simp: PHONE_PATTERN_def)
  have "filter is_digit p1 = []" using p1 by (rule filter_none) (simp add: digit_not_paren)
  moreover have "filter is_digit p2 = []" using p2 by (rule filter_none) (simp add: digit_not_paren)
  moreover have "filter is_digit s1 = []" "filter is_digit s2 = []"
    using s by (auto intro: filter_none dest: digit_not_sep)
  ultimately have "filter is_digit m = d1 @ d2 @ d3"
    using d by (simp add: m filter_all)
  with l show ?thesis by blast
qed

lemma phone_match_digits:
  assumes "m \<in> set (findall PHONE_PATTERN s)"
  shows "\<exists>a b c. filter is_digit m = a @ b @ c \<and> length a = 3 \<and> length b = 3 \<and> length c = 4"
proof -
  from findall_elem [OF assms] obtain s' n
    where "match_items PHONE_PATTERN s' = Some n" "m = take n s'" by blast
  then have "conforms PHONE_PATTERN m" by (simp add: match_items_conforms)
  then show ?thesis by (rule phone_conforms_digits)
qed

lemma find_phone_source:
  assumes "find_phone_below_email ew ws sd xt = Some r"
  shows "\<exists>w m. w \<in> set ws \<and> m \<in> set (findall PHONE_PATTERN (word_text w)) \<and> r = normalize_phone m"
proof -
  let ?cs = "phone_candidates_of ew ws sd xt"
  from assms obtain best rest where b: "sort_key snd ?cs = best # rest" and r: "r = normalize_phone (fst best)"
    by (auto simp: find_phone_below_email_def split: list.splits)
  have "best \<in> set (sort_key snd ?cs)" unfolding b by simp
  then have "best \<in> set ?cs" by simp
  then obtain w where "w \<in> set ws" "fst best \<in> set (findall PHONE_PATTERN (word_text w))"
    by (auto simp: phone_candidates_of_def Let_def List.map_filter_def split: list.splits)
  with r show ?thesis by blast
qed

lemma find_phone_form:
  assumes "find_phone_below_email ew ws sd xt = Some r"
  shows "\<exists>a b c. r = ''+1-'' @ a @ ''-'' @ b @ ''-'' @ c
         \<and> length a = 3 \<and> length b = 3 \<and> length c = 4 \<and> list_all is_digit (a @ b @ c)"
proof -
  from find_phone_source [OF assms] obtain w :: PdfWord and m
    where m: "m \<in> set (findall PHONE_PATTERN (word_text w))" and r: "r = normalize_phone m"
    by blast
  from phone_match_digits [OF m] obtain a b c
    where d: "filter is_digit m = a @ b @ c" and l: "length a = 3" "length b = 3" "length c = 4"
    by blast
  have "list_all is_digit (filter is_digit m)" by (simp add: list_all_iff)
  then have dig: "list_all is_digit (a @ b @ c)" by (simp add: d)
  have "r = ''+1-'' @ a @ ''-'' @ b @ ''-'' @ c"
    using l by (simp add: r normalize_phone_def d)
  with l dig show ?thesis by blast
qed

lemma find_phone_truthy:
  "truthy (find_phone_below_email ew ws sd xt) \<longleftrightarrow> find_phone_below_email ew ws sd xt \<noteq> None"
proof (cases "find_phone_below_email ew ws sd xt")
  case None
  then show ?thesis by (simp add: truthy_def)
next
  case (Some r)
  from find_phone_form [OF this] have "r \<noteq> []" by auto
  with Some show ?thesis by (simp add: truthy_def)
qed

text \<open>
  C9. Every match of the phone pattern holds exactly 10 digits, so whenever the phone
  search returns a phone it is \<open>+1-\<close> followed by digits grouped 3-3-4: the branch
  that returns the raw match is never taken.
\<close>

theorem phone_result_canonical:
  "(m \<in> set (findall PHONE_PATTERN s) \<longrightarrow> length (filter is_digit m) = 10) \<and>
   (find_phone_below_email ew ws sd xt = Some r \<longrightarrow>
      (\<exists>a b c. r = ''+1-'' @ a @ ''-'' @ b @ ''-'' @ c
         \<and> length a = 3 \<and> length b = 3 \<and> length c = 4 \<and> list_all is_digit (a @ b @ c)))"
proof (intro conjI impI)
  assume "m \<in> set (findall PHONE_PATTERN s)"
  from phone_match_digits [OF this] show "length (filter is_digit m) = 10" by auto
next
  assume "find_phone_below_email ew ws sd xt = Some r"
  then show "\<exists>a b c. r = ''+1-'' @ a @ ''-'' @ b @ ''-'' @ c
         \<and> length a = 3 \<and> length b = 3 \<and> length c = 4 \<and> list_all is_digit (a @ b @ c)"
    by (rule find_phone_form)
qed

theorem phone_result_canonical_witness:
  "''(212) 555-0100'' \<in> set (findall PHONE_PATTERN ''Tel:(212) 555-0100 x7'') \<and>
   length (filter is_digit ''(212) 555-0100'') = 10 \<and>
   find_phone_below_email
     \<lparr>word_text = ''jane.doe@example.com'', x0 = 45, y0 = 60, x1 = 145, y1 = 72, page_num = 0\<rparr>
     [\<lparr>word_text = ''Tel:(212) 555-0100 x7'', x0 = 68, y0 = 75, x1 = 128, y1 = 88, page_num = 0\<rparr>]
     40 100 = Some ''+1-212-555-0100'' \<and>
   (\<exists>a b c. ''+1-212-555-0100'' = ''+1-'' @ a @ ''-'' @ b @ ''-'' @ c
         \<and> length a = 3 \<and> length b = 3 \<and> length c = 4 \<and> list_all is_digit (a @ b @ c))"
proof -
  let ?mail = "\<lparr>word_text = ''jane.doe@example.com'', x0 = 45, y0 = 60, x1 = 145, y1 = 72, page_num = 0\<rparr>"
  let ?tel = "\<lparr>word_text = ''Tel:(212) 555-0100 x7'', x0 = 68, y0 = 75, x1 = 128, y1 = 88, page_num = 0\<rparr>"
  have f: "''(212) 555-0100'' \<in> set (findall PHONE_PATTERN ''Tel:(212) 555-0100 x7'')"
    by code_simp
  have p: "find_phone_below_email ?mail [?tel] 40 100 = Some ''+1-212-555-0100''"
    by code_simp
  from phone_result_canonical
    [of "''(212) 555-0100''" "''Tel:(212) 555-0100 x7''" ?mail "[?tel]" 40 100 "''+1-212-555-0100''"]
    f p
  show ?thesis by blast
qed

section \<open>The name search\<close>

lemma combined_text_span: "combined_text g = span_text g"
  by (simp add: combined_text_def span_text_def case_prod_unfold)

lemma avg_distance_mean: "avg_distance g = mean_distance g"
  by (simp add: avg_distance_def mean_distance_def case_prod_unfold)

lemma same_line_adjacent: "same_line (Some (y0 p)) (Some (x1 p)) w = adjacent p w"
  by (simp add: same_line_def adjacent_def)

lemma save_group_spans:
  "g \<noteq> [] \<Longrightarrow> save_group g nc =
     nc @ map (\<lambda>g. (combined_text g, avg_distance g))
            (filter (\<lambda>g. is_valid_name (combined_text g)) [g])"
  by (simp add: save_group_def)

lemma foldl_group_step:
  assumes "g \<noteq> []" "ly = Some (y0 (fst (last g)))" "lx = Some (x1 (fst (last g)))"
  shows "(case foldl group_step (nc, g, ly, lx) cs of
            (nc', g', ly', lx') \<Rightarrow> save_group g' nc')
         = nc @ map (\<lambda>g. (combined_text g, avg_distance g))
                  (filter (\<lambda>g. is_valid_name (combined_text g)) (groups_from g cs))"
  using assms
proof (induction cs arbitrary: nc g ly lx)
  case Nil
  then show ?case by (simp add: save_group_spans)
next
  case (Cons c cs)
  obtain w d where c: "c = (w, d)" by (cases c)
  show ?case
  proof (cases "adjacent (fst (last g)) w")
    case True
    have "foldl group_step (nc, g, ly, lx) (c # cs)
        = foldl group_step (nc, g @ [c], Some (y0 w), Some (x1 w)) cs"
      using True Cons.prems by (simp add: c same_line_adjacent)
    moreover have "groups_from g (c # cs) = groups_from (g @ [c]) cs"
      using True by (simp add: c)
    ultimately show ?thesis
      using Cons.IH [of "g @ [c]" "Some (y0 w)" "Some (x1 w)" nc] by (simp add: c)
  next
    case False
    have "foldl group_step (nc, g, ly, lx) (c # cs)
        = foldl group_step (save_group g nc, [c], Some (y0 w), Some (x1 w)) cs"
      using False Cons.prems by (simp add: c same_line_adjacent)
    moreover have "groups_from g (c # cs) = g # groups_from [c] cs"
      using False by (simp add: c)
    ultimately show ?thesis
      using Cons.IH [of "[c]" "Some (y0 w)" "Some (x1 w)" "save_group g nc"] Cons.prems(1)
      by (simp add: c save_group_spans)
  qed
qed

lemma grouping_loop:
  "(case foldl group_step ([], [], None, None) cs of
      (nc', g', ly', lx') \<Rightarrow> save_group g' nc')
   = map (\<lambda>g. (combined_text g, avg_distance g))
       (filter (\<lambda>g. is_valid_name (combined_text g)) (line_groups cs))"
proof (cases cs)
  case Nil
  then show ?thesis by (simp add: line_groups_def save_group_def)
next
  case (Cons c cs')
  obtain w d where c: "c = (w, d)" by (cases c)
  have "foldl group_step ([], [], None, None) cs
      = foldl group_step ([], [c], Some (y0 w), Some (x1 w)) cs'"
    by (simp add: Cons c same_line_def save_group_def)
  then show ?thesis
    using foldl_group_step [where g = "[c]" and ly = "Some (y0 w)" and lx = "Some (x1 w)"
        and nc = "[]" and cs = cs']
    by (simp add: Cons c line_groups_def)
qed

lemma find_name_groups:
  "find_name_above_email ew ws 60 100 =
     (case sort_key snd (map (\<lambda>g. (span_text g, mean_distance g)) (accepted_groups ew ws)) of
        [] \<Rightarrow> None
      | best # rest \<Rightarrow> Some (fst best))"
proof (cases "name_candidates_of ew ws 60 100 = []")
  case True
  then show ?thesis
    by (simp add: find_name_above_email_def accepted_groups_def name_groups_def line_groups_def)
next
  case False
  let ?cs = "sort_key snd (name_candidates_of ew ws 60 100)"
  obtain nc g ly lx where f: "foldl group_step ([], [], None, None) ?cs = (nc, g, ly, lx)"
    by (cases "foldl group_step ([], [], None, None) ?cs") auto
  with grouping_loop [of ?cs]
  have "save_group g nc = map (\<lambda>g. (span_text g, mean_distance g)) (accepted_groups ew ws)"
    by (simp add: accepted_groups_def name_groups_def combined_text_span avg_distance_mean)
  with False f show ?thesis
    by (simp add: find_name_above_email_def)
qed

lemma groups_from_concat: "concat (groups_from g cs) = g @ cs"
  by (induction cs arbitrary: g) auto

lemma groups_from_nonempty: "g \<noteq> [] \<Longrightarrow> h \<in> set (groups_from g cs) \<Longrightarrow> h \<noteq> []"
  by (induction cs arbitrary: g) (auto split: if_splits)

lemma line_groups_concat: "concat (line_groups cs) = cs"
  by (cases cs) (simp_all add: line_groups_def groups_from_concat)

lemma line_groups_nonempty: "h \<in> set (line_groups cs) \<Longrightarrow> h \<noteq> []"
  by (cases cs) (auto simp: line_groups_def dest: groups_from_nonempty [rotated])

lemma in_bounds_window:
  "in_bounds ew (y0 ew - 60) (y0 ew) (center_x ew - 100) (center_x ew + 100) w
     = in_name_window ew w"
  by (auto simp: in_bounds_def in_name_window_def)

lemma name_candidate_props:
  assumes "(w, d) \<in> set (name_candidates_of ew ws 60 100)"
  shows "w \<in> set ws \<and> in_name_window ew w \<and> d = \<bar>center_y w - y0 ew\<bar>"
  using assms by (auto simp: name_candidates_of_def Let_def in_bounds_window)

lemma name_candidates_skip:
  assumes "\<not> in_name_window ew w"
  shows "name_candidates_of ew (ws1 @ w # ws2) 60 100 = name_candidates_of ew (ws1 @ ws2) 60 100"
  using assms by (simp add: name_candidates_of_def Let_def in_bounds_window)

lemma sort_key_head_least:
  assumes "sort_key f xs = b # rest"
  shows "b \<in> set xs \<and> (\<forall>x \<in> set xs. f b \<le> f x)"
proof -
  have "sorted (map f (sort_key f xs))" by simp
  with assms have "\<forall>x \<in> set (b # rest). f b \<le> f x" by auto
  moreover have "set (b # rest) = set xs" unfolding assms [symmetric] by simp
  ultimately show ?thesis by auto
qed

lemma name_candidates_window:
  "name_candidates_of ew ws 60 100
     = map (\<lambda>w. (w, \<bar>center_y w - y0 ew\<bar>))
         (filter (\<lambda>w. in_name_window ew w \<and> starts_upper (word_text w)) ws)"
  by (simp add: name_candidates_of_def Let_def in_bounds_window)

lemma single_candidate_found:
  assumes "filter (\<lambda>w. in_name_window ew w \<and> starts_upper (word_text w)) ws = [v]"
    and "is_valid_name (word_text v)"
  shows "find_name_above_email ew ws 60 100 = Some (word_text v)"
proof -
  have "name_candidates_of ew ws 60 100 = [(v, \<bar>center_y v - y0 ew\<bar>)]"
    by (simp add: name_candidates_window assms(1))
  then have "name_groups ew ws = [[(v, \<bar>center_y v - y0 ew\<bar>)]]"
    by (simp add: name_groups_def line_groups_def)
  with assms(2) have "accepted_groups ew ws = [[(v, \<bar>center_y v - y0 ew\<bar>)]]"
    by (simp add: accepted_groups_def span_text_def)
  then show ?thesis by (simp add: find_name_groups span_text_def)
qed

lemma find_name_valid:
  assumes "find_name_above_email ew ws 60 100 = Some n"
  shows "is_valid_name n"
proof -
  let ?sp = "map (\<lambda>g. (span_text g, mean_distance g)) (accepted_groups ew ws)"
  from assms obtain b rest where s: "sort_key snd ?sp = b # rest" and n: "n = fst b"
    by (auto simp: find_name_groups split: list.splits)
  from sort_key_head_least [OF s] have "b \<in> set ?sp" by simp
  then obtain g where "g \<in> set (accepted_groups ew ws)" "b = (span_text g, mean_distance g)"
    by auto
  with n show ?thesis by (simp add: accepted_groups_def)
qed

text \<open>
  C2. With the default distances the candidates of the name search are exactly the
  tokens of the list that lie in the window (same page, vertical centre from 60 above
  the email's top to that top, horizontal centre within 100 of the email's centre)
  and start with an upper-case letter, each with its distance to the top. The groups
  are cut from the candidates sorted by distance. The search returns \<open>None\<close> exactly
  when the validator accepts no group, and otherwise the text of an accepted group
  (its texts joined by single spaces) whose mean distance is least; a single candidate
  with a valid text is returned. A
  token whose centre is more than 60 above the top (200 above, say) does not change
  the result.
\<close>

theorem name_search_closest_accepted:
  "name_candidates_of ew ws 60 100
     = map (\<lambda>w. (w, \<bar>center_y w - y0 ew\<bar>))
         (filter (\<lambda>w. in_name_window ew w \<and> starts_upper (word_text w)) ws) \<and>
   concat (name_groups ew ws) = sort_key snd (name_candidates_of ew ws 60 100) \<and>
   (\<forall>g \<in> set (name_groups ew ws). g \<noteq> [] \<and>
      (\<forall>(w, d) \<in> set g. w \<in> set ws \<and> in_name_window ew w \<and> d = \<bar>center_y w - y0 ew\<bar>)) \<and>
   (find_name_above_email ew ws 60 100 = None \<longleftrightarrow> accepted_groups ew ws = []) \<and>
   (\<forall>t. find_name_above_email ew ws 60 100 = Some t \<longrightarrow>
      (\<exists>g \<in> set (accepted_groups ew ws). t = span_text g
          \<and> (\<forall>g' \<in> set (accepted_groups ew ws). mean_distance g \<le> mean_distance g'))) \<and>
   (filter (\<lambda>w. in_name_window ew w \<and> starts_upper (word_text w)) ws = [v]
      \<and> is_valid_name (word_text v)
    \<longrightarrow> find_name_above_email ew ws 60 100 = Some (word_text v)) \<and>
   (center_y w < y0 ew - 60 \<longrightarrow>
      find_name_above_email ew (ws1 @ w # ws2) 60 100
        = find_name_above_email ew (ws1 @ ws2) 60 100)"
proof -
  let ?sp = "map (\<lambda>g. (span_text g, mean_distance g)) (accepted_groups ew ws)"
  have none: "find_name_above_email ew ws 60 100 = None \<longleftrightarrow> accepted_groups ew ws = []"
  proof (cases "sort_key snd ?sp")
    case Nil
    then have "set (sort_key snd ?sp) = {}" by simp
    then have "accepted_groups ew ws = []" by simp
    with Nil show ?thesis by (simp add: find_name_groups)
  next
    case (Cons b rest)
    then have "set (sort_key snd ?sp) \<noteq> {}" by simp
    then have "accepted_groups ew ws \<noteq> []" by simp
    with Cons show ?thesis by (simp add: find_name_groups)
  qed
  have some: "\<exists>g \<in> set (accepted_groups ew ws). t = span_text g
          \<and> (\<forall>g' \<in> set (accepted_groups ew ws). mean_distance g \<le> mean_distance g')"
    if "find_name_above_email ew ws 60 100 = Some t" for t
  proof -
    from that obtain b rest where s: "sort_key snd ?sp = b # rest" and t: "t = fst b"
      by (auto simp: find_name_groups split: list.splits)
    from sort_key_head_least [OF s]
    have b: "b \<in> set ?sp" and least: "\<forall>x \<in> set ?sp. snd b \<le> snd x" by auto
    from b obtain g where g: "g \<in> set (accepted_groups ew ws)"
      and bg: "b = (span_text g, mean_distance g)" by auto
    have "\<forall>g' \<in> set (accepted_groups ew ws). mean_distance g \<le> mean_distance g'"
      using least bg by auto
    with g bg t show ?thesis by auto
  qed
  have cat: "concat (name_groups ew ws) = sort_key snd (name_candidates_of ew ws 60 100)"
    by (simp add: name_groups_def line_groups_concat)
  have members: "g \<noteq> [] \<and>
      (\<forall>(w, d) \<in> set g. w \<in> set ws \<and> in_name_window ew w \<and> d = \<bar>center_y w - y0 ew\<bar>)"
    if g: "g \<in> set (name_groups ew ws)" for g
  proof
    from g show "g \<noteq> []" by (auto simp: name_groups_def dest: line_groups_nonempty)
    have "set g \<subseteq> set (concat (name_groups ew ws))" using g by auto
    also have "\<dots> = set (name_candidates_of ew ws 60 100)" by (simp add: cat)
    finally show "\<forall>(w, d) \<in> set g. w \<in> set ws \<and> in_name_window ew w \<and> d = \<bar>center_y w - y0 ew\<bar>"
      using name_candidate_props by blast
  qed
  have far: "find_name_above_email ew (ws1 @ w # ws2) 60 100
        = find_name_above_email ew (ws1 @ ws2) 60 100" if "center_y w < y0 ew - 60"
  proof -
    from that have "\<not> in_name_window ew w" by (simp add: in_name_window_def)
    then show ?thesis by (simp add: find_name_above_email_def name_candidates_skip)
  qed
  note cand = name_candidates_window [of ew ws]
  note single = single_candidate_found [of ew ws v]
  from cand cat members none some single far show ?thesis by blast
qed

theorem name_search_closest_accepted_witness:
  "(let mail = \<lparr>word_text = ''jane.doe@example.com'', x0 = 45, y0 = 300, x1 = 145, y1 = 312, page_num = 0\<rparr>;
        jane = \<lparr>word_text = ''Jane'', x0 = 60, y0 = 280, x1 = 90, y1 = 295, page_num = 0\<rparr>;
        doe = \<lparr>word_text = ''Doe'', x0 = 95, y0 = 280, x1 = 120, y1 = 295, page_num = 0\<rparr>;
        view = \<lparr>word_text = ''View'', x0 = 60, y0 = 262, x1 = 90, y1 = 274, page_num = 0\<rparr>;
        far = \<lparr>word_text = ''John Smith'', x0 = 60, y0 = 185/2, x1 = 130, y1 = 215/2, page_num = 0\<rparr>;
        edge = \<lparr>word_text = ''Ann Lee'', x0 = 60, y0 = 233, x1 = 130, y1 = 247, page_num = 0\<rparr>;
        low = \<lparr>word_text = ''ann lee'', x0 = 60, y0 = 280, x1 = 130, y1 = 295, page_num = 0\<rparr>
    in center_y far = y0 mail - 200
       \<and> find_name_above_email mail [far, view, jane, doe, mail] 60 100 = Some ''Jane Doe''
       \<and> find_name_above_email mail [view, jane, doe, mail] 60 100 = Some ''Jane Doe''
       \<and> name_groups mail [far, view, jane, doe, mail]
           = [[(jane, 25 / 2), (doe, 25 / 2)], [(view, 32)]]
       \<and> accepted_groups mail [far, view, jane, doe, mail] = [[(jane, 25 / 2), (doe, 25 / 2)]]
       \<and> (\<forall>g \<in> set (name_groups mail [far, view, jane, doe, mail]).
             \<forall>(w, d) \<in> set g. in_name_window mail w)
       \<and> center_y edge = y0 mail - 60
       \<and> filter (\<lambda>w. in_name_window mail w \<and> starts_upper (word_text w)) [far, low, edge, mail]
            = [edge]
       \<and> is_valid_name (word_text edge)
       \<and> find_name_above_email mail [far, low, edge, mail] 60 100 = Some ''Ann Lee'')"
proof -
  let ?mail = "\<lparr>word_text = ''jane.doe@example.com'', x0 = 45, y0 = 300, x1 = 145, y1 = 312, page_num = 0\<rparr>"
  let ?jane = "\<lparr>word_text = ''Jane'', x0 = 60, y0 = 280, x1 = 90, y1 = 295, page_num = 0\<rparr>"
  let ?doe = "\<lparr>word_text = ''Doe'', x0 = 95, y0 = 280, x1 = 120, y1 = 295, page_num = 0\<rparr>"
  let ?view = "\<lparr>word_text = ''View'', x0 = 60, y0 = 262, x1 = 90, y1 = 274, page_num = 0\<rparr>"
  let ?far = "\<lparr>word_text = ''John Smith'', x0 = 60, y0 = 185/2, x1 = 130, y1 = 215/2, page_num = 0\<rparr>"
  let ?edge = "\<lparr>word_text = ''Ann Lee'', x0 = 60, y0 = 233, x1 = 130, y1 = 247, page_num = 0\<rparr>"
  let ?low = "\<lparr>word_text = ''ann lee'', x0 = 60, y0 = 280, x1 = 130, y1 = 295, page_num = 0\<rparr>"
  have c: "center_y ?far = y0 ?mail - 200" "center_y ?far < y0 ?mail - 60"
    "center_y ?edge = y0 ?mail - 60"
    by (simp_all add: center_y_def)
  have n: "find_name_above_email ?mail [?view, ?jane, ?doe, ?mail] 60 100 = Some ''Jane Doe''"
    by code_simp
  have g: "name_groups ?mail [?far, ?view, ?jane, ?doe, ?mail]
           = [[(?jane, 25 / 2), (?doe, 25 / 2)], [(?view, 32)]]"
    by code_simp
  have a: "accepted_groups ?mail [?far, ?view, ?jane, ?doe, ?mail] = [[(?jane, 25 / 2), (?doe, 25 / 2)]]"
    by code_simp
  have f: "filter (\<lambda>w. in_name_window ?mail w \<and> starts_upper (word_text w))
             [?far, ?low, ?edge, ?mail] = [?edge]"
    by code_simp
  have v: "is_valid_name (word_text ?edge)" by code_simp
  note t = name_search_closest_accepted [of ?mail "[?far, ?view, ?jane, ?doe, ?mail]" ?edge ?far "[]"
      "[?view, ?jane, ?doe, ?mail]"]
  from t have "center_y ?far < y0 ?mail - 60 \<longrightarrow>
      find_name_above_email ?mail ([] @ ?far # [?view, ?jane, ?doe, ?mail]) 60 100
        = find_name_above_email ?mail ([] @ [?view, ?jane, ?doe, ?mail]) 60 100"
    by (elim conjE)
  from this c(2) have "find_name_above_email ?mail ([] @ ?far # [?view, ?jane, ?doe, ?mail]) 60 100
        = find_name_above_email ?mail ([] @ [?view, ?jane, ?doe, ?mail]) 60 100"
    by (rule mp)
  then have n': "find_name_above_email ?mail [?far, ?view, ?jane, ?doe, ?mail] 60 100 = Some ''Jane Doe''"
    unfolding append_Nil n .
  from t have "\<forall>g \<in> set (name_groups ?mail [?far, ?view, ?jane, ?doe, ?mail]). g \<noteq> [] \<and>
      (\<forall>(w, d) \<in> set g. w \<in> set [?far, ?view, ?jane, ?doe, ?mail] \<and> in_name_window ?mail w
          \<and> d = \<bar>center_y w - y0 ?mail\<bar>)"
    by (elim conjE)
  then have w: "\<forall>g \<in> set (name_groups ?mail [?far, ?view, ?jane, ?doe, ?mail]).
             \<forall>(w, d) \<in> set g. in_name_window ?mail w" by blast
  note u = name_search_closest_accepted [of ?mail "[?far, ?low, ?edge, ?mail]" ?edge ?far "[]"
      "[?low, ?edge, ?mail]"]
  from u have "filter (\<lambda>w. in_name_window ?mail w \<and> starts_upper (word_text w))
        [?far, ?low, ?edge, ?mail] = [?edge] \<and> is_valid_name (word_text ?edge)
    \<longrightarrow> find_name_above_email ?mail [?far, ?low, ?edge, ?mail] 60 100 = Some (word_text ?edge)"
    by (elim conjE)
  moreover from f v have "filter (\<lambda>w. in_name_window ?mail w \<and> starts_upper (word_text w))
        [?far, ?low, ?edge, ?mail] = [?edge] \<and> is_valid_name (word_text ?edge)"
    by (rule conjI)
  ultimately have "find_name_above_email ?mail [?far, ?low, ?edge, ?mail] 60 100 = Some (word_text ?edge)"
    by (rule mp)
  then have e: "find_name_above_email ?mail [?far, ?low, ?edge, ?mail] 60 100 = Some ''Ann Lee''"
    by simp
  from c(1) n' n g a w c(3) f v e show ?thesis unfolding Let_def by (intro conjI)
qed

section \<open>Finding the emails, one Contact per address\<close>

lemma lower_letters_not_upper: "d \<in> set lower_letters \<Longrightarrow> d \<notin> set upper_letters"
proof -
  have "list_all (\<lambda>d. d \<notin> set upper_letters) lower_letters" by code_simp
  then show "d \<in> set lower_letters \<Longrightarrow> d \<notin> set upper_letters"
    by (simp add: list_all_iff)
qed

lemma letters_length: "length upper_letters = length lower_letters"
  by (simp add: upper_letters_def lower_letters_def ascii_upper_def ascii_lower_def
      latin1_upper_def latin1_lower_def)

lemma lower_char_fixed: "c \<notin> set upper_letters \<Longrightarrow> lower_char c = c"
proof -
  assume "c \<notin> set upper_letters"
  then have "c \<notin> fst ` set (zip upper_letters lower_letters)"
    by (auto dest: set_zip_leftD)
  then have "map_of (zip upper_letters lower_letters) c = None"
    by (simp add: map_of_eq_None_iff)
  then show ?thesis by (simp add: lower_char_def)
qed

lemma lower_char_not_upper: "lower_char c \<notin> set upper_letters"
proof (cases "map_of (zip upper_letters lower_letters) c")
  case None
  then have "c \<notin> fst ` set (zip upper_letters lower_letters)"
    by (simp add: map_of_eq_None_iff)
  moreover have "map fst (zip upper_letters lower_letters) = upper_letters"
    using letters_length by (rule map_fst_zip)
  then have "fst ` set (zip upper_letters lower_letters) = set upper_letters"
    by (simp flip: set_map)
  ultimately have "c \<notin> set upper_letters" by simp
  with None show ?thesis by (simp add: lower_char_def)
next
  case (Some d)
  then have "(c, d) \<in> set (zip upper_letters lower_letters)" by (rule map_of_SomeD)
  then have "d \<in> set lower_letters" by (rule set_zip_rightD)
  with Some show ?thesis by (simp add: lower_char_def lower_letters_not_upper)
qed

lemma lower_idem: "lower (lower s) = lower s"
  by (simp add: lower_def lower_char_fixed lower_char_not_upper)

lemma find_emails_lower:
  "(e, w) \<in> set (find_emails_in_words ws) \<Longrightarrow> lower e = e"
  by (auto simp: find_emails_in_words_def lower_idem)

lemma collect_emails_set:
  "set (map pc_email (collect_contacts ws seen es)) = fst ` set es - seen"
  by (induction ws seen es rule: collect_contacts.induct)
     (auto simp: make_contact_def)

lemma collect_distinct:
  "distinct (map pc_email (collect_contacts ws seen es))"
proof (induction ws seen es rule: collect_contacts.induct)
  case (1 ws seen)
  then show ?case by simp
next
  case (2 ws seen e w es)
  have "e \<notin> set (map pc_email (collect_contacts ws (insert e seen) es))"
    unfolding collect_emails_set by simp
  with 2 show ?case by (simp add: make_contact_def)
qed

lemma collect_first:
  "pc \<in> set (collect_contacts ws seen es) \<Longrightarrow>
   \<exists>w. List.find (\<lambda>p. fst p = pc_email pc) es = Some (pc_email pc, w)
       \<and> pc = make_contact ws (pc_email pc) w"
proof (induction ws seen es rule: collect_contacts.induct)
  case (1 ws seen)
  then show ?case by simp
next
  case (2 ws seen e w es)
  show ?case
  proof (cases "e \<in> seen")
    case True
    with "2.prems" have in_rest: "pc \<in> set (collect_contacts ws seen es)" by simp
    then have "pc_email pc \<in> set (map pc_email (collect_contacts ws seen es))" by simp
    then have "pc_email pc \<notin> seen" unfolding collect_emails_set by simp
    with True have "e \<noteq> pc_email pc" by blast
    with "2.IH"(1) [OF True in_rest] show ?thesis by simp
  next
    case False
    with "2.prems" consider "pc = make_contact ws e w"
      | "pc \<in> set (collect_contacts ws (insert e seen) es)" by auto
    then show ?thesis
    proof cases
      case 1
      then show ?thesis by (simp add: make_contact_def)
    next
      case 2
      then have "pc_email pc \<in> set (map pc_email (collect_contacts ws (insert e seen) es))"
        by simp
      then have "e \<noteq> pc_email pc" unfolding collect_emails_set by auto
      with "2.IH"(2) [OF False 2] show ?thesis by simp
    qed
  qed
qed

lemma contacts_of_words_collect:
  "contacts_of_words ws = collect_contacts ws {} (find_emails_in_words ws)"
proof (cases "ws = []")
  case True
  then show ?thesis by (simp add: contacts_of_words_def find_emails_in_words_def)
next
  case False
  then show ?thesis
    by (cases "find_emails_in_words ws = []") (simp_all add: contacts_of_words_def Let_def)
qed

lemma process_contact_email: "email (process_contact pc) = pc_email pc"
  by (simp add: process_contact_def Let_def)

lemma pipeline_emails:
  "map email (pipeline ws url) = map pc_email (collect_contacts ws {} (find_emails_in_words ws))"
  by (simp add: pipeline_def process_pdf_contacts_def contacts_of_words_collect
      process_contact_email comp_def)

lemma found_email_nonempty: "(e, w) \<in> set (find_emails_in_words ws) \<Longrightarrow> e \<noteq> []"
proof -
  assume "(e, w) \<in> set (find_emails_in_words ws)"
  then obtain m where "m \<in> set (findall EMAIL_PATTERN (word_text w))" "e = lower m"
    by (auto simp: find_emails_in_words_def)
  with findall_min_len [of m EMAIL_PATTERN "word_text w"] show ?thesis
    by (auto simp: EMAIL_PATTERN_def lower_def)
qed

lemma pipeline_member:
  assumes "k \<in> set (pipeline ws url)"
  obtains e w where "(e, w) \<in> set (find_emails_in_words ws)"
    "k = process_contact (make_contact ws e w)"
proof -
  from assms obtain pc where pc: "pc \<in> set (collect_contacts ws {} (find_emails_in_words ws))"
    and k: "k = process_contact pc"
    by (auto simp: pipeline_def process_pdf_contacts_def contacts_of_words_collect)
  from collect_first [OF pc] obtain w
    where f: "List.find (\<lambda>p. fst p = pc_email pc) (find_emails_in_words ws) = Some (pc_email pc, w)"
      and m: "pc = make_contact ws (pc_email pc) w" by blast
  from f have "(pc_email pc, w) \<in> set (find_emails_in_words ws)"
    by (auto simp: find_Some_iff in_set_conv_nth)
  with k m that show thesis by metis
qed

lemma find_append_cases:
  "List.find P (xs @ ys) = (case List.find P xs of None \<Rightarrow> List.find P ys | Some x \<Rightarrow> Some x)"
  by (induction xs) auto

lemma find_pairs_of_word:
  "List.find (\<lambda>p. fst p = a) (map (\<lambda>e. (lower e, u)) ms)
     = (if a \<in> set (map lower ms) then Some (a, u) else None)"
  by (induction ms) auto

lemma find_emails_first:
  "List.find (\<lambda>p. fst p = a) (find_emails_in_words ws)
     = map_option (\<lambda>w. (a, w)) (List.find (\<lambda>w. a \<in> set (addresses_in w)) ws)"
proof (induction ws)
  case Nil
  then show ?case by (simp add: find_emails_in_words_def)
next
  case (Cons u ws)
  have "find_emails_in_words (u # ws)
      = map (\<lambda>e. (lower e, u)) (findall EMAIL_PATTERN (word_text u)) @ find_emails_in_words ws"
    by (simp add: find_emails_in_words_def)
  with Cons show ?case
    by (simp add: find_append_cases find_pairs_of_word addresses_in_def)
qed

lemma find_split:
  "List.find P xs = Some x \<Longrightarrow> \<exists>pre post. xs = pre @ x # post \<and> P x \<and> (\<forall>u \<in> set pre. \<not> P u)"
proof (induction xs)
  case Nil
  then show ?case by simp
next
  case (Cons y ys)
  show ?case
  proof (cases "P y")
    case True
    with Cons.prems have "y = x" by simp
    with True have "y # ys = [] @ x # ys \<and> P x \<and> (\<forall>u \<in> set []. \<not> P u)" by simp
    then show ?thesis by blast
  next
    case False
    with Cons.prems have "List.find P ys = Some x" by simp
    from Cons.IH [OF this] obtain pre post
      where "ys = pre @ x # post" "P x" "\<forall>u \<in> set pre. \<not> P u" by blast
    with False have "y # ys = (y # pre) @ x # post \<and> P x \<and> (\<forall>u \<in> set (y # pre). \<not> P u)"
      by simp
    then show ?thesis by blast
  qed
qed

lemma found_addresses:
  "fst ` set (find_emails_in_words ws) = (\<Union>w \<in> set ws. set (addresses_in w))"
  by (auto simp: find_emails_in_words_def addresses_in_def image_iff) blast+

text \<open>
  C3. The pipeline gives at most one Contact per lower-cased address, exactly one for
  each address that occurs in some token; every email of the output is lower-case;
  and each Contact is built from the first token of the input list in which its
  address occurs (no token before that one holds the address): its name and phone
  are those found above and below that token.
\<close>

theorem one_contact_per_address:
  "distinct (map email (pipeline ws url)) \<and>
   set (map email (pipeline ws url)) = (\<Union>w \<in> set ws. set (addresses_in w)) \<and>
   (\<forall>c \<in> set (pipeline ws url).
      lower (email c) = email c \<and>
      (\<exists>pre w post. ws = pre @ w # post
           \<and> email c \<in> set (addresses_in w)
           \<and> (\<forall>u \<in> set pre. email c \<notin> set (addresses_in u))
           \<and> c = process_contact
                 \<lparr> pc_email = email c,
                   pc_name = find_name_above_email w ws 60 100,
                   pc_phone = find_phone_below_email w ws 40 100,
                   pc_email_coords = [(''x'', center_x w), (''y'', center_y w),
                                      (''page'', of_int (page_num w))],
                   pc_page_num = page_num w \<rparr>
           \<and> phone c = find_phone_below_email w ws 40 100
           \<and> (\<forall>n. find_name_above_email w ws 60 100 = Some n \<and> n \<noteq> ''Unknown''
                  \<longrightarrow> name c = Some n)))"
proof -
  have d: "distinct (map email (pipeline ws url))"
    unfolding pipeline_emails by (rule collect_distinct)
  have s: "set (map email (pipeline ws url)) = (\<Union>w \<in> set ws. set (addresses_in w))"
    unfolding pipeline_emails collect_emails_set by (simp add: found_addresses)
  have m: "lower (email c) = email c \<and>
      (\<exists>pre w post. ws = pre @ w # post
           \<and> email c \<in> set (addresses_in w)
           \<and> (\<forall>u \<in> set pre. email c \<notin> set (addresses_in u))
           \<and> c = process_contact
                 \<lparr> pc_email = email c,
                   pc_name = find_name_above_email w ws 60 100,
                   pc_phone = find_phone_below_email w ws 40 100,
                   pc_email_coords = [(''x'', center_x w), (''y'', center_y w),
                                      (''page'', of_int (page_num w))],
                   pc_page_num = page_num w \<rparr>
           \<and> phone c = find_phone_below_email w ws 40 100
           \<and> (\<forall>n. find_name_above_email w ws 60 100 = Some n \<and> n \<noteq> ''Unknown''
                  \<longrightarrow> name c = Some n))"
    if "c \<in> set (pipeline ws url)" for c
  proof -
    from that obtain pc where pc: "pc \<in> set (collect_contacts ws {} (find_emails_in_words ws))"
      and c: "c = process_contact pc"
      by (auto simp: pipeline_def process_pdf_contacts_def contacts_of_words_collect)
    from collect_first [OF pc] obtain w
      where f: "List.find (\<lambda>p. fst p = pc_email pc) (find_emails_in_words ws)
                  = Some (pc_email pc, w)"
        and mk: "pc = make_contact ws (pc_email pc) w" by blast
    from f have "(pc_email pc, w) \<in> set (find_emails_in_words ws)"
      by (auto simp: find_Some_iff in_set_conv_nth)
    then have low: "lower (email c) = email c"
      by (simp add: c process_contact_email find_emails_lower)
    from f have "List.find (\<lambda>w. pc_email pc \<in> set (addresses_in w)) ws = Some w"
      by (auto simp: find_emails_first)
    from find_split [OF this] obtain pre post
      where sp: "ws = pre @ w # post" "pc_email pc \<in> set (addresses_in w)"
        "\<forall>u \<in> set pre. pc_email pc \<notin> set (addresses_in u)" by blast
    have e: "email c = pc_email pc" by (simp add: c process_contact_email)
    have rec: "c = process_contact
                 \<lparr> pc_email = email c,
                   pc_name = find_name_above_email w ws 60 100,
                   pc_phone = find_phone_below_email w ws 40 100,
                   pc_email_coords = [(''x'', center_x w), (''y'', center_y w),
                                      (''page'', of_int (page_num w))],
                   pc_page_num = page_num w \<rparr>"
      unfolding e using mk by (simp add: c make_contact_def)
    have ph: "phone c = find_phone_below_email w ws 40 100"
      by (subst rec) (simp add: process_contact_def Let_def)
    have nm: "name c = Some n"
      if "find_name_above_email w ws 60 100 = Some n \<and> n \<noteq> ''Unknown''" for n
    proof -
      from that have fn: "find_name_above_email w ws 60 100 = Some n" by simp
      then have "is_valid_name n" by (rule find_name_valid)
      then have "n \<noteq> []" by (auto simp: is_valid_name_def)
      with that fn show ?thesis
        by (subst rec) (simp add: process_contact_def Let_def truthy_def)
    qed
    from sp e rec ph nm have "ws = pre @ w # post
           \<and> email c \<in> set (addresses_in w)
           \<and> (\<forall>u \<in> set pre. email c \<notin> set (addresses_in u))
           \<and> c = process_contact
                 \<lparr> pc_email = email c,
                   pc_name = find_name_above_email w ws 60 100,
                   pc_phone = find_phone_below_email w ws 40 100,
                   pc_email_coords = [(''x'', center_x w), (''y'', center_y w),
                                      (''page'', of_int (page_num w))],
                   pc_page_num = page_num w \<rparr>
           \<and> phone c = find_phone_below_email w ws 40 100
           \<and> (\<forall>n. find_name_above_email w ws 60 100 = Some n \<and> n \<noteq> ''Unknown''
                  \<longrightarrow> name c = Some n)"
      by simp
    with low show ?thesis by blast
  qed
  from d s m show ?thesis by blast
qed

theorem one_contact_per_address_witness:
  "(let n1 = \<lparr>word_text = ''Jane Doe'', x0 = 80, y0 = 40, x1 = 120, y1 = 55, page_num = 0\<rparr>;
        m1 = \<lparr>word_text = ''Jane.Doe@Example.com'', x0 = 45, y0 = 60, x1 = 145, y1 = 72, page_num = 0\<rparr>;
        n2 = \<lparr>word_text = ''Bob Stone'', x0 = 80, y0 = 240, x1 = 120, y1 = 255, page_num = 0\<rparr>;
        m2 = \<lparr>word_text = ''jane.doe@example.COM'', x0 = 45, y0 = 260, x1 = 145, y1 = 272, page_num = 0\<rparr>;
        ws = [n1, m1, n2, m2];
        a = ''jane.doe@example.com''
    in addresses_in n1 = [] \<and> addresses_in m1 = [a] \<and> addresses_in m2 = [a]
       \<and> find_name_above_email m1 ws 60 100 = Some ''Jane Doe''
       \<and> find_name_above_email m2 ws 60 100 = Some ''Bob Stone''
       \<and> map name (pipeline ws ''u'') = [Some ''Jane Doe'']
       \<and> map email (pipeline ws ''u'') = [a]
       \<and> distinct (map email (pipeline ws ''u''))
       \<and> set (map email (pipeline ws ''u'')) = (\<Union>w \<in> set ws. set (addresses_in w))
       \<and> (\<forall>c \<in> set (pipeline ws ''u'').
      lower (email c) = email c \<and>
      (\<exists>pre w post. ws = pre @ w # post
           \<and> email c \<in> set (addresses_in w)
           \<and> (\<forall>u \<in> set pre. email c \<notin> set (addresses_in u))
           \<and> c = process_contact
                 \<lparr> pc_email = email c,
                   pc_name = find_name_above_email w ws 60 100,
                   pc_phone = find_phone_below_email w ws 40 100,
                   pc_email_coords = [(''x'', center_x w), (''y'', center_y w),
                                      (''page'', of_int (page_num w))],
                   pc_page_num = page_num w \<rparr>
           \<and> phone c = find_phone_below_email w ws 40 100
           \<and> (\<forall>n. find_name_above_email w ws 60 100 = Some n \<and> n \<noteq> ''Unknown''
                  \<longrightarrow> name c = Some n))))"
proof -
  let ?n1 = "\<lparr>word_text = ''Jane Doe'', x0 = 80, y0 = 40, x1 = 120, y1 = 55, page_num = 0\<rparr>"
  let ?m1 = "\<lparr>word_text = ''Jane.Doe@Example.com'', x0 = 45, y0 = 60, x1 = 145, y1 = 72, page_num = 0\<rparr>"
  let ?n2 = "\<lparr>word_text = ''Bob Stone'', x0 = 80, y0 = 240, x1 = 120, y1 = 255, page_num = 0\<rparr>"
  let ?m2 = "\<lparr>word_text = ''jane.doe@example.COM'', x0 = 45, y0 = 260, x1 = 145, y1 = 272, page_num = 0\<rparr>"
  let ?ws = "[?n1, ?m1, ?n2, ?m2]"
  have a: "addresses_in ?n1 = []" "addresses_in ?m1 = [''jane.doe@example.com'']"
    "addresses_in ?m2 = [''jane.doe@example.com'']" by code_simp+
  have f: "find_name_above_email ?m1 ?ws 60 100 = Some ''Jane Doe''"
    "find_name_above_email ?m2 ?ws 60 100 = Some ''Bob Stone''" by code_simp+
  have p: "map name (pipeline ?ws ''u'') = [Some ''Jane Doe'']"
    "map email (pipeline ?ws ''u'') = [''jane.doe@example.com'']" by code_simp+
  note t = one_contact_per_address [of ?ws "''u''"]
  from t have d: "distinct (map email (pipeline ?ws ''u''))" by (elim conjE)
  from t have s: "set (map email (pipeline ?ws ''u'')) = (\<Union>w \<in> set ?ws. set (addresses_in w))"
    by (elim conjE)
  from t have m: "\<forall>c \<in> set (pipeline ?ws ''u'').
      lower (email c) = email c \<and>
      (\<exists>pre w post. ?ws = pre @ w # post
           \<and> email c \<in> set (addresses_in w)
           \<and> (\<forall>u \<in> set pre. email c \<notin> set (addresses_in u))
           \<and> c = process_contact
                 \<lparr> pc_email = email c,
                   pc_name = find_name_above_email w ?ws 60 100,
                   pc_phone = find_phone_below_email w ?ws 40 100,
                   pc_email_coords = [(''x'', center_x w), (''y'', center_y w),
                                      (''page'', of_int (page_num w))],
                   pc_page_num = page_num w \<rparr>
           \<and> phone c = find_phone_below_email w ?ws 40 100
           \<and> (\<forall>n. find_name_above_email w ?ws 60 100 = Some n \<and> n \<noteq> ''Unknown''
                  \<longrightarrow> name c = Some n))"
    by (elim conjE)
  from a f p d s m show ?thesis unfolding Let_def by (intro conjI)
qed

section \<open>Pairing\<close>

text \<open>The second piece that \<open>extract_domain\<close> reads exists whenever \<open>@\<close> occurs.\<close>

lemma split_where_length: "length (split_where sep s) = Suc (length (filter sep s))"
  by (induction s) (auto split: list.splits)

lemma split_at_has_second:
  "CHR ''@'' \<in> set e \<Longrightarrow> 1 < length (split_where (\<lambda>c. c = CHR ''@'') e)"
proof -
  assume "CHR ''@'' \<in> set e"
  then have "filter (\<lambda>c. c = CHR ''@'') e \<noteq> []" by (simp add: filter_empty_conv)
  then show ?thesis by (simp add: split_where_length)
qed

lemma derive_name_unknown:
  "generic_alias e \<or> no_segment_survives e \<Longrightarrow> derive_name_from_email e = ''Unknown''"
  by (auto simp: derive_name_from_email_def generic_alias_def no_segment_survives_def Let_def)

lemma process_contact_name:
  "name (process_contact pc) =
     (let nm = (if truthy (pc_name pc) then the (pc_name pc)
                else derive_name_from_email (pc_email pc))
      in if nm \<noteq> ''Unknown'' then Some nm else None)"
  by (simp add: process_contact_def Let_def)

text \<open>
  C7. No Contact produced by pairing and classification has the name \<open>Unknown\<close>; when
  no name was found and the derivation from the address fails (generic alias, or no
  segment survives), the name of the Contact is \<open>None\<close>.
\<close>

theorem name_never_unknown:
  "(\<forall>c \<in> set (process_pdf_contacts pcs url). name c \<noteq> Some ''Unknown'') \<and>
   (\<forall>pc \<in> set pcs. \<not> truthy (pc_name pc)
        \<and> (generic_alias (pc_email pc) \<or> no_segment_survives (pc_email pc))
      \<longrightarrow> name (process_contact pc) = None)"
proof (intro conjI ballI impI)
  fix c :: Contact
  assume "c \<in> set (process_pdf_contacts pcs url)"
  then obtain pc where "c = process_contact pc"
    by (auto simp: process_pdf_contacts_def)
  then show "name c \<noteq> Some ''Unknown''"
    by (simp add: process_contact_name Let_def)
next
  fix pc :: PdfContact
  assume "\<not> truthy (pc_name pc)
    \<and> (generic_alias (pc_email pc) \<or> no_segment_survives (pc_email pc))"
  then show "name (process_contact pc) = None"
    by (simp add: process_contact_name derive_name_unknown)
qed

theorem name_never_unknown_witness:
  "(let pcs = [\<lparr>pc_email = ''info@acme.com'', pc_name = None, pc_phone = None,
                 pc_email_coords = [], pc_page_num = 0\<rparr>,
               \<lparr>pc_email = ''2024@acme.com'', pc_name = Some [], pc_phone = None,
                 pc_email_coords = [], pc_page_num = 0\<rparr>]
    in map name (process_pdf_contacts pcs ''u'') = [None, None]
       \<and> list_all (\<lambda>pc. \<not> truthy (pc_name pc)) pcs
       \<and> generic_alias ''info@acme.com'' \<and> no_segment_survives ''2024@acme.com'')"
proof -
  let ?a = "\<lparr>pc_email = ''info@acme.com'', pc_name = None, pc_phone = None,
                 pc_email_coords = [], pc_page_num = 0\<rparr>"
  let ?b = "\<lparr>pc_email = ''2024@acme.com'', pc_name = Some [], pc_phone = None,
                 pc_email_coords = [], pc_page_num = 0\<rparr>"
  have g: "generic_alias ''info@acme.com''" by code_simp
  have n: "no_segment_survives ''2024@acme.com''" by code_simp
  have t: "\<not> truthy (pc_name ?a)" "\<not> truthy (pc_name ?b)" by (simp_all add: truthy_def)
  from name_never_unknown [of "[?a, ?b]" "''u''"] g n t
  have "name (process_contact ?a) = None" "name (process_contact ?b) = None" by simp_all
  with g n t show ?thesis by (simp add: process_pdf_contacts_def)
qed

lemma join_with_nonempty: "p \<noteq> [] \<Longrightarrow> join_with sep (p # ps) \<noteq> []"
  by (cases ps) simp_all

lemma name_part_nonempty: "name_part part = Some x \<Longrightarrow> x \<noteq> []"
  by (auto simp: name_part_def capitalize_def split: if_splits list.splits)

lemma map_filter_name_part_nonempty:
  "x \<in> set (List.map_filter name_part parts) \<Longrightarrow> x \<noteq> []"
  by (auto simp: List.map_filter_def dest: name_part_nonempty)

lemma derive_name_nonempty: "derive_name_from_email e \<noteq> []"
proof -
  have "join_with (CHR '' '') ps \<noteq> []"
    if "ps = List.map_filter name_part parts" "ps \<noteq> []" for ps parts
  proof (cases ps)
    case Nil
    with that show ?thesis by simp
  next
    case (Cons p ps')
    with that(1) have "List.map_filter name_part parts = p # ps'" by simp
    then have "p \<in> set (List.map_filter name_part parts)" by simp
    then have "p \<noteq> []" by (rule map_filter_name_part_nonempty)
    then show ?thesis unfolding Cons by (rule join_with_nonempty)
  qed
  then show ?thesis by (simp add: derive_name_from_email_def Let_def)
qed

lemma process_contact_name_present:
  "name_present (process_contact pc) \<longleftrightarrow> name (process_contact pc) \<noteq> None"
  using derive_name_nonempty [of "pc_email pc"]
  by (auto simp: name_present_def process_contact_name Let_def truthy_def split: option.splits)

lemma calculate_confidence_tier:
  "calculate_confidence c = spec_tier (name_present c) (email_present c) (phone_present c)"
  by (simp add: calculate_confidence_def spec_tier_def name_present_def email_present_def
      phone_present_def Let_def)

lemma process_contact_confidence:
  "confidence (process_contact pc) = calculate_confidence (process_contact pc)"
  by (simp add: process_contact_def calculate_confidence_def Let_def)

text \<open>
  C5. The confidence of a Contact is the tier of the three presence tests: \<open>high\<close> when
  name, email and phone are present, \<open>medium\<close> when name and email or email and phone
  are, \<open>low\<close> otherwise. The stored confidence of a processed contact is that value,
  and for the Contacts of the pipeline presence is being different from \<open>None\<close>. A
  Contact with all three is ranked no lower than one with email and phone only, which
  is ranked no lower than one with email only.
\<close>

theorem confidence_by_presence:
  "calculate_confidence c = spec_tier (name_present c) (email_present c) (phone_present c) \<and>
   confidence (process_contact pc) = calculate_confidence (process_contact pc) \<and>
   (\<forall>k \<in> set (pipeline ws url).
      email k \<noteq> [] \<and> (name_present k \<longleftrightarrow> name k \<noteq> None) \<and> (phone_present k \<longleftrightarrow> phone k \<noteq> None)
      \<and> confidence k = spec_tier (name k \<noteq> None) True (phone k \<noteq> None)) \<and>
   (name_present c1 \<and> email_present c1 \<and> phone_present c1
    \<and> \<not> name_present c2 \<and> email_present c2 \<and> phone_present c2
    \<and> \<not> name_present c3 \<and> email_present c3 \<and> \<not> phone_present c3
    \<longrightarrow> tier_rank (calculate_confidence c3) \<le> tier_rank (calculate_confidence c2)
      \<and> tier_rank (calculate_confidence c2) \<le> tier_rank (calculate_confidence c1))"
proof -
  have out: "email k \<noteq> [] \<and> (name_present k \<longleftrightarrow> name k \<noteq> None)
      \<and> (phone_present k \<longleftrightarrow> phone k \<noteq> None)
      \<and> confidence k = spec_tier (name k \<noteq> None) True (phone k \<noteq> None)"
    if "k \<in> set (pipeline ws url)" for k
  proof -
    from that obtain e w where ew: "(e, w) \<in> set (find_emails_in_words ws)"
      and k: "k = process_contact (make_contact ws e w)" by (rule pipeline_member)
    have e: "email k = e" by (simp add: k process_contact_email make_contact_def)
    with ew have em: "email_present k" by (simp add: email_present_def found_email_nonempty)
    have n: "name_present k \<longleftrightarrow> name k \<noteq> None"
      unfolding k by (rule process_contact_name_present)
    have "phone k = find_phone_below_email w ws 40 100"
      by (simp add: k process_contact_def make_contact_def Let_def)
    then have p: "phone_present k \<longleftrightarrow> phone k \<noteq> None"
      by (simp add: phone_present_def find_phone_truthy)
    have "confidence k = calculate_confidence k" unfolding k by (rule process_contact_confidence)
    with em n p have "confidence k = spec_tier (name k \<noteq> None) True (phone k \<noteq> None)"
      by (simp add: calculate_confidence_tier)
    with em n p show ?thesis by (simp add: email_present_def)
  qed
  have mono: "tier_rank (calculate_confidence c3) \<le> tier_rank (calculate_confidence c2)
      \<and> tier_rank (calculate_confidence c2) \<le> tier_rank (calculate_confidence c1)"
    if "name_present c1 \<and> email_present c1 \<and> phone_present c1
    \<and> \<not> name_present c2 \<and> email_present c2 \<and> phone_present c2
    \<and> \<not> name_present c3 \<and> email_present c3 \<and> \<not> phone_present c3"
    using that by (simp add: calculate_confidence_tier spec_tier_def tier_rank_def)
  from out mono show ?thesis
    by (simp add: calculate_confidence_tier [symmetric] process_contact_confidence)
qed

theorem confidence_by_presence_witness:
  "(let ws = [\<lparr>word_text = ''Jane Doe'', x0 = 80, y0 = 40, x1 = 120, y1 = 55, page_num = 0\<rparr>,
              \<lparr>word_text = ''jane.doe@example.com'', x0 = 45, y0 = 60, x1 = 145, y1 = 72, page_num = 0\<rparr>,
              \<lparr>word_text = ''info@example.com'', x0 = 45, y0 = 400, x1 = 145, y1 = 412, page_num = 0\<rparr>];
        c1 = \<lparr>name = Some ''Jane Doe'', email = ''j@x.org'', phone = Some ''+1-212-555-0100'',
              profileUrl = None, source = ''pdf'', confidence = ''medium'', domain = None,
              domainType = None\<rparr>;
        c2 = c1\<lparr>name := None\<rparr>;
        c3 = c2\<lparr>phone := None\<rparr>
    in map confidence (pipeline ws ''u'') = [''medium'', ''low'']
       \<and> (\<forall>k \<in> set (pipeline ws ''u'').
             confidence k = spec_tier (name k \<noteq> None) True (phone k \<noteq> None))
       \<and> name_present c1 \<and> email_present c1 \<and> phone_present c1
       \<and> \<not> name_present c2 \<and> email_present c2 \<and> phone_present c2
       \<and> \<not> name_present c3 \<and> email_present c3 \<and> \<not> phone_present c3
       \<and> tier_rank (calculate_confidence c3) \<le> tier_rank (calculate_confidence c2)
       \<and> tier_rank (calculate_confidence c2) \<le> tier_rank (calculate_confidence c1)
       \<and> map calculate_confidence [c1, c2, c3] = [''high'', ''medium'', ''low''])"
proof -
  let ?ws = "[\<lparr>word_text = ''Jane Doe'', x0 = 80, y0 = 40, x1 = 120, y1 = 55, page_num = 0\<rparr>,
              \<lparr>word_text = ''jane.doe@example.com'', x0 = 45, y0 = 60, x1 = 145, y1 = 72, page_num = 0\<rparr>,
              \<lparr>word_text = ''info@example.com'', x0 = 45, y0 = 400, x1 = 145, y1 = 412, page_num = 0\<rparr>]"
  let ?c1 = "\<lparr>name = Some ''Jane Doe'', email = ''j@x.org'', phone = Some ''+1-212-555-0100'',
              profileUrl = None, source = ''pdf'', confidence = ''medium'', domain = None,
              domainType = None\<rparr>"
  let ?pc = "\<lparr>pc_email = ''info@example.com'', pc_name = None, pc_phone = None,
              pc_email_coords = [], pc_page_num = 0\<rparr>"
  let ?c2 = "?c1\<lparr>name := None\<rparr>"
  let ?c3 = "?c2\<lparr>phone := None\<rparr>"
  have a: "map confidence (pipeline ?ws ''u'') = [''medium'', ''low'']" by code_simp
  have p: "name_present ?c1 \<and> email_present ?c1 \<and> phone_present ?c1
       \<and> \<not> name_present ?c2 \<and> email_present ?c2 \<and> phone_present ?c2
       \<and> \<not> name_present ?c3 \<and> email_present ?c3 \<and> \<not> phone_present ?c3"
    by (simp add: name_present_def email_present_def phone_present_def truthy_def)
  have v: "map calculate_confidence [?c1, ?c2, ?c3] = [''high'', ''medium'', ''low'']"
    by (simp add: calculate_confidence_def truthy_def)
  from confidence_by_presence [of ?c1 ?pc ?ws "''u''" ?c1 ?c2 ?c3] a p v
  show ?thesis unfolding Let_def by blast
qed

section \<open>Extraction without tokens or emails\<close>

text \<open>
  C8. An empty token list, and a token list without an email address, give the empty
  contact list and no error.
\<close>

theorem no_tokens_no_emails_empty:
  "(pdf_words path = Some [] \<longrightarrow> extract_contacts_from_pdf pdf_words path = Inr []) \<and>
   (pdf_words path = Some ws \<and> find_emails_in_words ws = []
      \<longrightarrow> extract_contacts_from_pdf pdf_words path = Inr [])"
  by (simp add: extract_contacts_from_pdf_def contacts_of_words_def)

theorem no_tokens_no_emails_empty_witness:
  "extract_contacts_from_pdf (\<lambda>p. Some []) ''page.pdf'' = Inr [] \<and>
   find_emails_in_words
     [\<lparr>word_text = ''Jane Doe'', x0 = 80, y0 = 40, x1 = 120, y1 = 55, page_num = 0\<rparr>] = [] \<and>
   extract_contacts_from_pdf
     (\<lambda>p. Some [\<lparr>word_text = ''Jane Doe'', x0 = 80, y0 = 40, x1 = 120, y1 = 55, page_num = 0\<rparr>])
     ''page.pdf'' = Inr []"
proof -
  let ?ws = "[\<lparr>word_text = ''Jane Doe'', x0 = 80, y0 = 40, x1 = 120, y1 = 55, page_num = 0\<rparr>]"
  have e: "findall EMAIL_PATTERN ''Jane Doe'' = []" by code_simp
  have f: "find_emails_in_words ?ws = []" by (simp add: find_emails_in_words_def e)
  from no_tokens_no_emails_empty [of "\<lambda>p. Some []" "''page.pdf''"]
  have a: "extract_contacts_from_pdf (\<lambda>p. Some []) ''page.pdf'' = Inr []" by simp
  from no_tokens_no_emails_empty [of "\<lambda>p. Some ?ws" "''page.pdf''" ?ws] f
  have b: "extract_contacts_from_pdf (\<lambda>p. Some ?ws) ''page.pdf'' = Inr []" by simp
  from a f b show ?thesis by simp
qed

section \<open>The spatial pairing scenario\<close>

lemma jane_doe_valid: "is_valid_name ''Jane Doe''"
  by code_simp

lemma jane_doe_upper: "starts_upper ''Jane Doe''"
  by code_simp

lemma scenario_emails:
  "findall EMAIL_PATTERN ''Jane Doe'' = []"
  "findall EMAIL_PATTERN ''jane.doe@example.com'' = [''jane.doe@example.com'']"
  "findall EMAIL_PATTERN ''212-555-0100'' = []"
  "lower ''jane.doe@example.com'' = ''jane.doe@example.com''"
  by code_simp+

lemma scenario_phone:
  "findall PHONE_PATTERN ''212-555-0100'' = [''212-555-0100'']"
  "normalize_phone ''212-555-0100'' = ''+1-212-555-0100''"
  by code_simp+

lemma scenario_domain:
  "extract_domain ''jane.doe@example.com'' = Some ''example.com''"
  "classify_domain (Some ''example.com'') = ''business''"
  by code_simp+

text \<open>
  C1. The tokens \<open>Jane Doe\<close> (y from 40 to 55), \<open>jane.doe@example.com\<close> (y from 60 to 72)
  and \<open>212-555-0100\<close> (y from 75 to 88) on page 0, the name and the phone centred
  within 100 of the email's centre horizontally, give exactly one Contact: name
  \<open>Jane Doe\<close>, that email, phone \<open>+1-212-555-0100\<close>, domain \<open>example.com\<close>, type
  \<open>business\<close>, confidence \<open>high\<close>.
\<close>

theorem spatial_pairing_scenario:
  fixes a0 a1 b0 b1 c0 c1 :: rat
  assumes "\<bar>(a0 + a1) / 2 - (b0 + b1) / 2\<bar> \<le> 100"
      and "\<bar>(c0 + c1) / 2 - (b0 + b1) / 2\<bar> \<le> 100"
  shows "pipeline
     [\<lparr>word_text = ''Jane Doe'', x0 = a0, y0 = 40, x1 = a1, y1 = 55, page_num = 0\<rparr>,
      \<lparr>word_text = ''jane.doe@example.com'', x0 = b0, y0 = 60, x1 = b1, y1 = 72, page_num = 0\<rparr>,
      \<lparr>word_text = ''212-555-0100'', x0 = c0, y0 = 75, x1 = c1, y1 = 88, page_num = 0\<rparr>] url
   = [\<lparr>name = Some ''Jane Doe'', email = ''jane.doe@example.com'', phone = Some ''+1-212-555-0100'',
       profileUrl = None, source = ''pdf'', confidence = ''high'', domain = Some ''example.com'',
       domainType = Some ''business''\<rparr>]"
proof -
  let ?jane = "\<lparr>word_text = ''Jane Doe'', x0 = a0, y0 = 40, x1 = a1, y1 = 55, page_num = 0\<rparr>"
  let ?mail = "\<lparr>word_text = ''jane.doe@example.com'', x0 = b0, y0 = 60, x1 = b1, y1 = 72, page_num = 0\<rparr>"
  let ?tel = "\<lparr>word_text = ''212-555-0100'', x0 = c0, y0 = 75, x1 = c1, y1 = 88, page_num = 0\<rparr>"
  let ?ws = "[?jane, ?mail, ?tel]"
  have em: "find_emails_in_words ?ws = [(''jane.doe@example.com'', ?mail)]"
    by (simp add: find_emails_in_words_def scenario_emails)
  have ja: "(b0 + b1) / 2 - 100 \<le> (a0 + a1) / 2" "(a0 + a1) / 2 \<le> (b0 + b1) / 2 + 100"
    using assms(1) by linarith+
  have ca: "(b0 + b1) / 2 - 100 \<le> (c0 + c1) / 2" "(c0 + c1) / 2 \<le> (b0 + b1) / 2 + 100"
    using assms(2) by linarith+
  have nc: "name_candidates_of ?mail ?ws 60 100 = [(?jane, 25 / 2)]"
    using ja by (simp add: name_candidates_of_def in_bounds_def center_x_def center_y_def
        jane_doe_upper Let_def)
  have nm: "find_name_above_email ?mail ?ws 60 100 = Some ''Jane Doe''"
    by (simp add: find_name_above_email_def nc same_line_def save_group_def combined_text_def
        avg_distance_def jane_doe_valid)
  have pc: "phone_candidates_of ?mail ?ws 40 100 = [(''212-555-0100'', 19 / 2)]"
    using ca by (simp add: phone_candidates_of_def in_bounds_def center_x_def center_y_def
        Let_def List.map_filter_simps scenario_phone)
  have ph: "find_phone_below_email ?mail ?ws 40 100 = Some ''+1-212-555-0100''"
    by (simp add: find_phone_below_email_def pc scenario_phone)
  have cw: "contacts_of_words ?ws = [make_contact ?ws ''jane.doe@example.com'' ?mail]"
    by (simp add: contacts_of_words_def em)
  show ?thesis
    by (simp add: pipeline_def process_pdf_contacts_def cw make_contact_def nm ph
        process_contact_def truthy_def scenario_domain calculate_confidence_def Let_def)
qed

theorem spatial_pairing_scenario_witness:
  "\<bar>(80 + 120) / 2 - (45 + 145) / 2\<bar> \<le> (100 :: rat) \<and>
   \<bar>(68 + 128) / 2 - (45 + 145) / 2\<bar> \<le> (100 :: rat) \<and>
   pipeline
     [\<lparr>word_text = ''Jane Doe'', x0 = 80, y0 = 40, x1 = 120, y1 = 55, page_num = 0\<rparr>,
      \<lparr>word_text = ''jane.doe@example.com'', x0 = 45, y0 = 60, x1 = 145, y1 = 72, page_num = 0\<rparr>,
      \<lparr>word_text = ''212-555-0100'', x0 = 68, y0 = 75, x1 = 128, y1 = 88, page_num = 0\<rparr>]
     ''https://example.com/team''
   = [\<lparr>name = Some ''Jane Doe'', email = ''jane.doe@example.com'', phone = Some ''+1-212-555-0100'',
       profileUrl = None, source = ''pdf'', confidence = ''high'', domain = Some ''example.com'',
       domainType = Some ''business''\<rparr>]"
proof -
  have h: "\<bar>(80 + 120) / 2 - (45 + 145) / 2\<bar> \<le> (100 :: rat)"
    "\<bar>(68 + 128) / 2 - (45 + 145) / 2\<bar> \<le> (100 :: rat)" by simp_all
  from spatial_pairing_scenario [OF h] h show ?thesis by blast
qed

end
